theory Spec2Isabelle
  imports Main "HOL-Library.Word"
begin

section \<open>The LRU-K replacer of \<^verbatim>\<open>src/buffer/lru_k_replacer.cpp\<close>\<close>

subsection \<open>Data\<close>

text \<open>
  Modelled from the spec: the declaration of \<^verbatim>\<open>frame_id_t\<close> is in a header that is not
  among the source files; the specification has a frame id as an integer. The range check
  of the source compares a frame id with \<^verbatim>\<open>static_cast<frame_id_t>(replacer_size_)\<close> as
  signed numbers, so the type is signed and a negative id passes the check. BusTub declares
  it as \<^verbatim>\<open>int32_t\<close>. A frame id is an integer here; the integers that are no 32-bit
  values are ids that no call can pass.
\<close>

type_synonym frame_id_t = int

text \<open>
  \<^verbatim>\<open>static_cast<frame_id_t>(n)\<close> for a \<^verbatim>\<open>size_t\<close> value: the low 32 bits, read as two's
  complement. A capacity below \<open>2 ^ 31\<close> keeps its value, the capacity \<open>2 ^ 31\<close> becomes
  \<open>- (2 ^ 31)\<close>.
\<close>

definition static_cast_frame_id_t :: "nat \<Rightarrow> frame_id_t" where
  "static_cast_frame_id_t n = (int n + 2 ^ 31) mod 2 ^ 32 - 2 ^ 31"

text \<open>\<^verbatim>\<open>k_time\<close>: a frame and the timestamp that is its key in \<^verbatim>\<open>k_frames_\<close>.\<close>

type_synonym k_time = "frame_id_t \<times> nat"

text \<open>
  Modelled from the spec: the declaration of the class \<^verbatim>\<open>LRUKReplacer\<close> is in a header that
  is not among the source files. The members are the ones the source uses, with the types
  its statements need and the names of the source without the trailing underscore
  (\<^verbatim>\<open>k_\<close> is \<open>replacer_k\<close>); the specification has the history, the count and the
  evictable flag per frame, the cold and the warm index, the size and the clock.

  The \<^verbatim>\<open>size_t\<close> counters are naturals. A counter goes up by one in a call, so it wraps
  only after \<open>2 ^ 64\<close> calls, and \<open>+ 1\<close> is left unbounded; a decrement can wrap in one
  call, and \<open>dec_size_t\<close> writes that out. \<^verbatim>\<open>max_size_\<close>, which the source writes and
  never reads, goes below zero in runs the source allows and is a 64-bit word.

  The three maps \<^verbatim>\<open>hist_\<close>, \<^verbatim>\<open>record_cnt_\<close> and \<^verbatim>\<open>evictable_\<close> are only used through
  \<^verbatim>\<open>operator[]\<close>, which gives a missing key the value-initialised entry: they are total
  functions whose value at an unused key is the empty history, 0 and false.
  \<^verbatim>\<open>new_frames_\<close> and \<^verbatim>\<open>k_frames_\<close> are the two linked lists, front first.

  The iterator maps \<^verbatim>\<open>new_pos_\<close> and \<^verbatim>\<open>k_pos_\<close> are not fields. The source stores
  \<^verbatim>\<open>new_pos_[f]\<close> (\<^verbatim>\<open>k_pos_[f]\<close>) exactly when it links a node for \<open>f\<close> into the list, and
  erases the entry exactly when it unlinks that node, so the entry of \<open>f\<close> is the iterator
  of the node of \<open>f\<close>; \<^verbatim>\<open>list.erase(pos_[f])\<close> is modelled as unlinking the node of \<open>f\<close>,
  and as undefined behaviour when the list has no such node (the map then yields a
  singular iterator).

  \<open>latch\<close> tells whether \<^verbatim>\<open>latch_\<close> is locked.
\<close>

record replacer =
  replacer_size :: nat
  replacer_k :: nat
  max_size :: "64 word"
  curr_size :: nat
  current_timestamp :: nat
  hist :: "frame_id_t \<Rightarrow> nat list"
  record_cnt :: "frame_id_t \<Rightarrow> nat"
  evictable :: "frame_id_t \<Rightarrow> bool"
  new_frames :: "frame_id_t list"
  k_frames :: "k_time list"
  latch :: bool

text \<open>
  The source throws \<^verbatim>\<open>std::exception()\<close> at three places; \<open>InvalidFrame\<close> names the
  throw after the range check (lines 54 and 111), \<open>IllegalRemoval\<close> the one in
  \<^verbatim>\<open>Remove\<close> for a frame that is not evictable (line 118).
\<close>

datatype error = InvalidFrame | IllegalRemoval

text \<open>
  What C++ leaves undefined and the source can run into:
  \<^item> \<open>Relock\<close>: \<^verbatim>\<open>latch_\<close> is a \<^verbatim>\<open>std::mutex\<close> (the source locks it with
    \<^verbatim>\<open>std::lock_guard<std::mutex>\<close>), and the thread that owns it locks it again; with the
    usual implementations the call blocks for ever;
  \<^item> \<open>BadIterator\<close>: \<^verbatim>\<open>erase\<close> through an iterator map that has no entry for the frame;
  \<^item> \<open>EmptyFront\<close>: \<^verbatim>\<open>front()\<close> or \<^verbatim>\<open>erase(begin())\<close> on an empty history;
  \<^item> \<open>Unpartitioned\<close>: \<^verbatim>\<open>std::upper_bound\<close> on a range that is not partitioned by
    the comparison with the value.
\<close>

datatype undefined_behaviour = Relock | BadIterator | EmptyFront | Unpartitioned

text \<open>
  A call returns a value and leaves a state, or throws and leaves a state, or runs into
  undefined behaviour, after which there is neither.
\<close>

datatype 'a result = Ok 'a replacer | Throw error replacer | Undefined undefined_behaviour

fun and_then :: "'a result \<Rightarrow> ('a \<Rightarrow> replacer \<Rightarrow> 'b result) \<Rightarrow> 'b result" where
  "and_then (Ok x s) f = f x s"
| "and_then (Throw e s) f = Throw e s"
| "and_then (Undefined u) f = Undefined u"

text \<open>The state a completed call leaves, whether it returned or threw.\<close>

fun state_after :: "'a result \<Rightarrow> replacer option" where
  "state_after (Ok x s) = Some s"
| "state_after (Throw e s) = Some s"
| "state_after (Undefined u) = None"

text \<open>Whether a call returned.\<close>

fun returns :: "'a result \<Rightarrow> bool" where
  "returns (Ok x s) = True"
| "returns (Throw e s) = False"
| "returns (Undefined u) = False"

text \<open>
  \<^verbatim>\<open>std::lock_guard<std::mutex> lock(latch_)\<close> as the first statement of a function: the
  body runs with the latch held, and the guard's destructor releases it on return and on
  throw.
\<close>

definition lock_guard :: "(replacer \<Rightarrow> 'a result) \<Rightarrow> replacer \<Rightarrow> 'a result" where
  "lock_guard body s =
     (if latch s then Undefined Relock
      else (case body (s\<lparr>latch := True\<rparr>) of
              Ok x s' \<Rightarrow> Ok x (s'\<lparr>latch := False\<rparr>)
            | Throw e s' \<Rightarrow> Throw e (s'\<lparr>latch := False\<rparr>)
            | Undefined u \<Rightarrow> Undefined u))"

definition dec_size_t :: "nat \<Rightarrow> nat" where
  "dec_size_t n = (if n = 0 then 2 ^ 64 - 1 else n - 1)"

subsection \<open>The lists\<close>

text \<open>\<^verbatim>\<open>new_frames_.erase(new_pos_[f])\<close>.\<close>

definition erase_new :: "frame_id_t \<Rightarrow> frame_id_t list \<Rightarrow> frame_id_t list option" where
  "erase_new f xs = (if f \<in> set xs then Some (remove1 f xs) else None)"

fun unlink :: "frame_id_t \<Rightarrow> k_time list \<Rightarrow> k_time list" where
  "unlink f [] = []"
| "unlink f (e # es) = (if fst e = f then es else e # unlink f es)"

text \<open>\<^verbatim>\<open>k_frames_.erase(k_pos_[f])\<close>.\<close>

definition erase_k :: "frame_id_t \<Rightarrow> k_time list \<Rightarrow> k_time list option" where
  "erase_k f es = (if f \<in> fst ` set es then Some (unlink f es) else None)"

definition CmpTimestamp :: "k_time \<Rightarrow> k_time \<Rightarrow> bool" where
  "CmpTimestamp f1 f2 = (snd f1 < snd f2)"

text \<open>
  \<^verbatim>\<open>std::upper_bound(first, last, value, comp)\<close> returns the first position whose element
  \<open>e\<close> has \<open>comp value e\<close>, on a range where no such element comes before an element
  without; \<open>insert_upper\<close> is the \<^verbatim>\<open>insert\<close> at that position.
\<close>

fun partitioned :: "k_time \<Rightarrow> k_time list \<Rightarrow> bool" where
  "partitioned v [] = True"
| "partitioned v (e # es) =
     (if CmpTimestamp v e then list_all (CmpTimestamp v) es else partitioned v es)"

fun insert_upper :: "k_time \<Rightarrow> k_time list \<Rightarrow> k_time list" where
  "insert_upper v [] = [v]"
| "insert_upper v (e # es) =
     (if CmpTimestamp v e then v # e # es else e # insert_upper v es)"

definition upper_bound_insert :: "k_time \<Rightarrow> k_time list \<Rightarrow> k_time list option" where
  "upper_bound_insert v es = (if partitioned v es then Some (insert_upper v es) else None)"

text \<open>
  The second loop of \<^verbatim>\<open>Evict\<close>: from \<^verbatim>\<open>begin()\<close> on, the first node whose frame is
  evictable; the result is that frame and the list after \<^verbatim>\<open>erase(it)\<close>.
\<close>

fun scan_k :: "(frame_id_t \<Rightarrow> bool) \<Rightarrow> k_time list \<Rightarrow> (frame_id_t \<times> k_time list) option" where
  "scan_k ev [] = None"
| "scan_k ev (e # es) =
     (if ev (fst e) then Some (fst e, es)
      else (case scan_k ev es of None \<Rightarrow> None | Some (f, es') \<Rightarrow> Some (f, e # es')))"

subsection \<open>The operations\<close>

text \<open>
  The constructor sets \<^verbatim>\<open>replacer_size_\<close>, \<^verbatim>\<open>k_\<close> and \<^verbatim>\<open>max_size_\<close>. Modelled from the
  spec: the initial values of the other members are in the missing class declaration; the
  specification has the construction initialise an empty state, size 0 and clock 0.
\<close>

definition LRUKReplacer :: "nat \<Rightarrow> nat \<Rightarrow> replacer" where
  "LRUKReplacer num_frames k =
     \<lparr>replacer_size = num_frames, replacer_k = k, max_size = of_nat num_frames,
      curr_size = 0, current_timestamp = 0, hist = (\<lambda>_. []), record_cnt = (\<lambda>_. 0),
      evictable = (\<lambda>_. False), new_frames = [], k_frames = [], latch = False\<rparr>"

text \<open>\<^verbatim>\<open>Size\<close> takes no lock.\<close>

definition Size :: "replacer \<Rightarrow> nat" where
  "Size s = curr_size s"

text \<open>
  \<^verbatim>\<open>Evict\<close> returns \<open>Some f\<close> for \<^verbatim>\<open>true\<close> with \<^verbatim>\<open>*frame_id = f\<close> and \<open>None\<close> for
  \<^verbatim>\<open>false\<close>. The first loop walks \<^verbatim>\<open>new_frames_\<close> from \<^verbatim>\<open>rbegin()\<close>, the back of the
  list.
\<close>

definition Evict_body :: "replacer \<Rightarrow> frame_id_t option result" where
  "Evict_body s =
     (if Size s = 0 then Ok None s
      else (case find (evictable s) (rev (new_frames s)) of
              Some frame \<Rightarrow>
                (case erase_new frame (new_frames s) of
                   None \<Rightarrow> Undefined BadIterator
                 | Some l \<Rightarrow>
                     Ok (Some frame)
                        (s\<lparr>record_cnt := (record_cnt s)(frame := 0),
                           new_frames := l,
                           hist := (hist s)(frame := []),
                           curr_size := dec_size_t (curr_size s)\<rparr>))
            | None \<Rightarrow>
                (case scan_k (evictable s) (k_frames s) of
                   Some (frame, l) \<Rightarrow>
                     Ok (Some frame)
                        (s\<lparr>record_cnt := (record_cnt s)(frame := 0),
                           k_frames := l,
                           hist := (hist s)(frame := []),
                           curr_size := dec_size_t (curr_size s)\<rparr>)
                 | None \<Rightarrow> Ok None s)))"

definition Evict :: "replacer \<Rightarrow> frame_id_t option result" where
  "Evict = lock_guard Evict_body"

text \<open>
  Lines 70 to 76 and 80 to 86 of \<^verbatim>\<open>RecordAccess\<close> end alike: the key is the front of the
  history, and the pair goes into \<^verbatim>\<open>k_frames_\<close> at its upper bound.
\<close>

definition insert_k :: "replacer \<Rightarrow> frame_id_t \<Rightarrow> unit result" where
  "insert_k s frame_id =
     (case hist s frame_id of
        [] \<Rightarrow> Undefined EmptyFront
      | kth_time # _ \<Rightarrow>
          (case upper_bound_insert (frame_id, kth_time) (k_frames s) of
             None \<Rightarrow> Undefined Unpartitioned
           | Some l \<Rightarrow> Ok () (s\<lparr>k_frames := l\<rparr>)))"

text \<open>
  The parameter \<^verbatim>\<open>access_type\<close> of \<^verbatim>\<open>RecordAccess\<close> is never read and is left out. The call
  of \<^verbatim>\<open>Evict\<close> in line 62 is a call of the public function, which locks the latch.
\<close>

definition RecordAccess_body :: "frame_id_t \<Rightarrow> replacer \<Rightarrow> unit result" where
  "RecordAccess_body frame_id s =
     (if frame_id > static_cast_frame_id_t (replacer_size s) then Throw InvalidFrame s
      else
        let s1 = s\<lparr>current_timestamp := current_timestamp s + 1\<rparr>;
            s2 = s1\<lparr>hist := (hist s1)(frame_id := hist s1 frame_id @ [current_timestamp s1])\<rparr>;
            cnt = record_cnt s2 frame_id + 1;
            s3 = s2\<lparr>record_cnt := (record_cnt s2)(frame_id := cnt)\<rparr>
        in and_then
             (if cnt = 1 then
                and_then (if curr_size s3 = replacer_size s3 then Evict s3 else Ok None s3)
                  (\<lambda>_ s4. Ok () (s4\<lparr>evictable := (evictable s4)(frame_id := True),
                                     curr_size := curr_size s4 + 1,
                                     new_frames := frame_id # new_frames s4\<rparr>))
              else Ok () s3)
             (\<lambda>_ s5.
                if cnt = replacer_k s5 then
                  (case erase_new frame_id (new_frames s5) of
                     None \<Rightarrow> Undefined BadIterator
                   | Some l \<Rightarrow> insert_k (s5\<lparr>new_frames := l\<rparr>) frame_id)
                else if cnt > replacer_k s5 then
                  (case hist s5 frame_id of
                     [] \<Rightarrow> Undefined EmptyFront
                   | _ # h \<Rightarrow>
                       (case erase_k frame_id (k_frames s5) of
                          None \<Rightarrow> Undefined BadIterator
                        | Some l \<Rightarrow>
                            insert_k (s5\<lparr>hist := (hist s5)(frame_id := h), k_frames := l\<rparr>)
                              frame_id))
                else Ok () s5))"

definition RecordAccess :: "replacer \<Rightarrow> frame_id_t \<Rightarrow> unit result" where
  "RecordAccess s frame_id = lock_guard (RecordAccess_body frame_id) s"

definition SetEvictable_body :: "frame_id_t \<Rightarrow> bool \<Rightarrow> replacer \<Rightarrow> unit result" where
  "SetEvictable_body frame_id set_evictable s =
     (if record_cnt s frame_id = 0 then Ok () s
      else
        let status = evictable s frame_id;
            s1 = s\<lparr>evictable := (evictable s)(frame_id := set_evictable)\<rparr>;
            s2 = (if status \<and> \<not> set_evictable
                  then s1\<lparr>max_size := max_size s1 - 1, curr_size := dec_size_t (curr_size s1)\<rparr>
                  else s1);
            s3 = (if \<not> status \<and> set_evictable
                  then s2\<lparr>max_size := max_size s2 + 1, curr_size := curr_size s2 + 1\<rparr>
                  else s2)
        in Ok () s3)"

definition SetEvictable :: "replacer \<Rightarrow> frame_id_t \<Rightarrow> bool \<Rightarrow> unit result" where
  "SetEvictable s frame_id set_evictable = lock_guard (SetEvictable_body frame_id set_evictable) s"

definition Remove_body :: "frame_id_t \<Rightarrow> replacer \<Rightarrow> unit result" where
  "Remove_body frame_id s =
     (if frame_id > static_cast_frame_id_t (replacer_size s) then Throw InvalidFrame s
      else
        let cnt = record_cnt s frame_id
        in if cnt = 0 then Ok () s
           else if \<not> evictable s frame_id then Throw IllegalRemoval s
           else if cnt < replacer_k s then
             (case erase_new frame_id (new_frames s) of
                None \<Rightarrow> Undefined BadIterator
              | Some l \<Rightarrow>
                  Ok () (s\<lparr>new_frames := l,
                           record_cnt := (record_cnt s)(frame_id := 0),
                           hist := (hist s)(frame_id := []),
                           curr_size := dec_size_t (curr_size s)\<rparr>))
           else
             (case erase_k frame_id (k_frames s) of
                None \<Rightarrow> Undefined BadIterator
              | Some l \<Rightarrow>
                  Ok () (s\<lparr>k_frames := l,
                           record_cnt := (record_cnt s)(frame_id := 0),
                           hist := (hist s)(frame_id := []),
                           curr_size := dec_size_t (curr_size s)\<rparr>)))"

definition Remove :: "replacer \<Rightarrow> frame_id_t \<Rightarrow> unit result" where
  "Remove s frame_id = lock_guard (Remove_body frame_id) s"

subsection \<open>Runs\<close>

text \<open>
  A client constructs the replacer and then calls it; \<open>run\<close> is the state after a list of
  calls that all completed (returned or threw), and \<open>None\<close> when one of them ran into
  undefined behaviour.
\<close>

datatype call =
  CallRecordAccess frame_id_t
  | CallEvict
  | CallSetEvictable frame_id_t bool
  | CallRemove frame_id_t

fun step :: "replacer \<Rightarrow> call \<Rightarrow> replacer option" where
  "step s (CallRecordAccess f) = state_after (RecordAccess s f)"
| "step s CallEvict = state_after (Evict s)"
| "step s (CallSetEvictable f v) = state_after (SetEvictable s f v)"
| "step s (CallRemove f) = state_after (Remove s f)"

fun run :: "replacer \<Rightarrow> call list \<Rightarrow> replacer option" where
  "run s [] = Some s"
| "run s (c # cs) = (case step s c of None \<Rightarrow> None | Some s' \<Rightarrow> run s' cs)"

text \<open>A call whose frame id, when it is a \<open>RecordAccess\<close>, is in \<open>[0, n)\<close>.\<close>

fun in_range :: "nat \<Rightarrow> call \<Rightarrow> bool" where
  "in_range n (CallRecordAccess f) = (0 \<le> f \<and> f < int n)"
| "in_range n c = True"

subsection \<open>Example runs\<close>

text \<open>
  Three runs on a replacer of capacity 4 with \<open>K = 2\<close>: one that leaves an evictable frame
  in \<open>new_frames\<close> in front of a pinned one, one that leaves the only evictable frame
  in \<open>k_frames\<close> behind a pinned one, and one that leaves nothing to evict.
\<close>

definition calls_cold :: "call list" where
  "calls_cold = [CallRecordAccess 1, CallRecordAccess 2, CallRecordAccess 1, CallRecordAccess 3,
     CallSetEvictable 2 False]"

definition calls_warm :: "call list" where
  "calls_warm = [CallRecordAccess 1, CallRecordAccess 1, CallRecordAccess 2, CallRecordAccess 2,
     CallRecordAccess 3, CallSetEvictable 3 False, CallSetEvictable 1 False]"

definition calls_pinned :: "call list" where
  "calls_pinned = [CallRecordAccess 1, CallSetEvictable 1 False]"

text \<open>A run that leaves two frames in \<open>k_frames\<close> and a third one access short of it.\<close>

definition calls_order :: "call list" where
  "calls_order = [CallRecordAccess 1, CallRecordAccess 1, CallRecordAccess 2, CallRecordAccess 3,
     CallRecordAccess 3]"

text \<open>
  The replacer of capacity 1 with \<open>K = 2\<close> after \<^verbatim>\<open>RecordAccess(1)\<close>, and the one after
  \<^verbatim>\<open>RecordAccess(-1)\<close>: one frame is recorded and \<open>Size\<close> equals the capacity.
\<close>

definition full_replacer :: "frame_id_t \<Rightarrow> replacer" where
  "full_replacer f =
     (LRUKReplacer 1 2)
       \<lparr>curr_size := 1, current_timestamp := 1, hist := (\<lambda>_. [])(f := [1]),
        record_cnt := (\<lambda>_. 0)(f := 1), evictable := (\<lambda>_. False)(f := True),
        new_frames := [f]\<rparr>"

subsection \<open>The representation invariant\<close>

text \<open>
  What every state of a run satisfies: the latch is free between calls, the two lists hold
  each frame at most once, a frame is in \<open>new_frames\<close> exactly when its count is in
  \<open>[1, K)\<close> and in \<open>k_frames\<close> exactly when it is at least \<open>K\<close>, \<open>curr_size\<close> counts the
  evictable frames with a positive count, \<open>k_frames\<close> is sorted by key, a history holds
  \<open>min count K\<close> timestamps, and the key of a frame is the oldest of them.
\<close>

definition invar :: "replacer \<Rightarrow> bool" where
  "invar s \<longleftrightarrow>
     \<not> latch s \<and> 1 \<le> replacer_k s \<and>
     distinct (new_frames s) \<and> distinct (map fst (k_frames s)) \<and>
     (\<forall>f. f \<in> set (new_frames s) \<longleftrightarrow> 1 \<le> record_cnt s f \<and> record_cnt s f < replacer_k s) \<and>
     (\<forall>f. f \<in> fst ` set (k_frames s) \<longleftrightarrow> replacer_k s \<le> record_cnt s f) \<and>
     curr_size s = card {f. 0 < record_cnt s f \<and> evictable s f} \<and>
     sorted (map snd (k_frames s)) \<and>
     (\<forall>f. length (hist s f) = min (record_cnt s f) (replacer_k s)) \<and>
     (\<forall>e\<in>set (k_frames s). snd e = hd (hist s (fst e)))"

section \<open>The cast of the capacity\<close>

lemma static_cast_frame_id_t_small:
  assumes "n < 2 ^ 31"
  shows "static_cast_frame_id_t n = int n"
proof -
  from assms have "int n < 2 ^ 31" by (simp add: of_nat_less_numeral_power_cancel_iff)
  then have "(int n + 2 ^ 31) mod 2 ^ 32 = int n + 2 ^ 31" by simp
  then show ?thesis by (simp add: static_cast_frame_id_t_def)
qed

lemma static_cast_frame_id_t_wraps: "static_cast_frame_id_t (2 ^ 31) = - (2 ^ 31)"
  by (simp add: static_cast_frame_id_t_def)

section \<open>Facts about the lists\<close>

lemma find_append_cases:
  "find P (xs @ ys) = (case find P xs of None \<Rightarrow> find P ys | Some x \<Rightarrow> Some x)"
  by (induction xs) auto

lemma find_rev_Some:
  "find P (rev xs) = Some f \<Longrightarrow> \<exists>ys zs. xs = ys @ f # zs \<and> P f \<and> (\<forall>z\<in>set zs. \<not> P z)"
proof (induction xs)
  case Nil
  then show ?case by simp
next
  case (Cons x xs)
  show ?case
  proof (cases "find P (rev xs)")
    case None
    with Cons.prems have "P x" "f = x"
      by (auto simp: find_append_cases split: if_splits)
    moreover from None have "\<forall>z\<in>set xs. \<not> P z"
      by (simp add: find_None_iff)
    ultimately show ?thesis by (intro exI [of _ "[]"] exI [of _ xs]) simp
  next
    case (Some g)
    with Cons.prems have "find P (rev xs) = Some f"
      by (simp add: find_append_cases)
    from Cons.IH [OF this] obtain ys zs where "xs = ys @ f # zs" "P f" "\<forall>z\<in>set zs. \<not> P z"
      by blast
    then show ?thesis by (intro exI [of _ "x # ys"] exI [of _ zs]) simp
  qed
qed

lemma scan_k_None: "scan_k ev es = None \<longleftrightarrow> (\<forall>e\<in>set es. \<not> ev (fst e))"
  by (induction es) (auto split: option.splits)

lemma scan_k_Some:
  "scan_k ev es = Some (f, l) \<Longrightarrow>
   \<exists>xs t ys. es = xs @ (f, t) # ys \<and> l = xs @ ys \<and> ev f \<and> (\<forall>e\<in>set xs. \<not> ev (fst e))"
proof (induction es arbitrary: l)
  case Nil
  then show ?case by simp
next
  case (Cons e es)
  show ?case
  proof (cases "ev (fst e)")
    case True
    with Cons.prems have "f = fst e" "l = es" by auto
    with True show ?thesis
      by (intro exI [of _ "[]"] exI [of _ "snd e"] exI [of _ es]) simp
  next
    case False
    with Cons.prems obtain l' where l': "scan_k ev es = Some (f, l')" "l = e # l'"
      by (auto split: option.splits)
    from Cons.IH [OF l'(1)] obtain xs t ys where
      "es = xs @ (f, t) # ys" "l' = xs @ ys" "ev f" "\<forall>e\<in>set xs. \<not> ev (fst e)"
      by blast
    with False l'(2) show ?thesis
      by (intro exI [of _ "e # xs"] exI [of _ t] exI [of _ ys]) simp
  qed
qed

lemma unlink_filter: "distinct (map fst es) \<Longrightarrow> unlink f es = filter (\<lambda>e. fst e \<noteq> f) es"
proof (induction es)
  case Nil
  then show ?case by simp
next
  case (Cons e es)
  have "filter (\<lambda>e. fst e \<noteq> f) es = es" if "fst e = f"
  proof (rule filter_True)
    show "\<forall>x\<in>set es. fst x \<noteq> f" using Cons.prems that by (auto simp: image_iff)
  qed
  with Cons show ?case by simp
qed

lemma remove1_filter: "distinct xs \<Longrightarrow> remove1 f xs = filter (\<lambda>x. x \<noteq> f) xs"
  by (induction xs) (auto intro: filter_True [symmetric])

lemma unlink_middle:
  "distinct (map fst (xs @ (f, t) # ys)) \<Longrightarrow> unlink f (xs @ (f, t) # ys) = xs @ ys"
  by (induction xs) auto

lemma set_insert_upper: "set (insert_upper v es) = insert v (set es)"
  by (induction es) auto

lemma sorted_insert_upper:
  "sorted (map snd es) \<Longrightarrow> sorted (map snd (insert_upper v es))"
  by (induction es) (auto simp: set_insert_upper CmpTimestamp_def)

lemma sorted_partitioned: "sorted (map snd es) \<Longrightarrow> partitioned v es"
  by (induction es) (auto simp: CmpTimestamp_def list_all_iff)

lemma insert_upper_split:
  "\<exists>xs ys. es = xs @ ys \<and> insert_upper v es = xs @ v # ys \<and>
     (\<forall>e\<in>set xs. snd e \<le> snd v) \<and> (sorted (map snd es) \<longrightarrow> (\<forall>e\<in>set ys. snd v < snd e))"
proof (induction es)
  case Nil
  then show ?case by simp
next
  case (Cons e es)
  show ?case
  proof (cases "CmpTimestamp v e")
    case True
    then show ?thesis
      by (intro exI [of _ "[]"] exI [of _ "e # es"]) (auto simp: CmpTimestamp_def)
  next
    case False
    from Cons.IH obtain xs ys where *: "es = xs @ ys" "insert_upper v es = xs @ v # ys"
      "\<forall>e\<in>set xs. snd e \<le> snd v" "sorted (map snd es) \<longrightarrow> (\<forall>e\<in>set ys. snd v < snd e)"
      by blast
    with False show ?thesis
      by (intro exI [of _ "e # xs"] exI [of _ ys]) (auto simp: CmpTimestamp_def)
  qed
qed

lemma distinct_insert_upper:
  "distinct (map fst (insert_upper v es)) \<longleftrightarrow> fst v \<notin> fst ` set es \<and> distinct (map fst es)"
  by (induction es) (auto simp: set_insert_upper)

lemma filter_fst_id: "f \<notin> fst ` set es \<Longrightarrow> filter (\<lambda>e. fst e \<noteq> f) es = es"
  by (rule filter_True) force

lemma filter_id: "f \<notin> set xs \<Longrightarrow> filter (\<lambda>x. x \<noteq> f) xs = xs"
  by (rule filter_True) auto

lemma find_rev_in: "find P (rev xs) = Some f \<Longrightarrow> f \<in> set xs \<and> P f"
  by (auto dest: find_rev_Some)

lemma find_rev_last:
  assumes "P f" "\<forall>z\<in>set zs. \<not> P z"
  shows "find P (rev (ys @ f # zs)) = Some f"
proof -
  from assms(2) have "find P (rev zs) = None" by (simp add: find_None_iff)
  with assms(1) show ?thesis by (simp add: find_append_cases)
qed

lemma scan_k_unlink:
  assumes "distinct (map fst es)" "scan_k ev es = Some (f, l)"
  shows "l = unlink f es" and "f \<in> fst ` set es" and "ev f"
proof -
  from scan_k_Some [OF assms(2)] obtain xs t ys where
    *: "es = xs @ (f, t) # ys" "l = xs @ ys" "ev f" by blast
  from * show "ev f" by simp
  from * show "f \<in> fst ` set es" by force
  from * assms(1) show "l = unlink f es" by (simp only: unlink_middle)
qed

lemma scan_k_first:
  assumes "ev f" "\<forall>e\<in>set xs. \<not> ev (fst e)"
  shows "scan_k ev (xs @ (f, t) # ys) = Some (f, xs @ ys)"
  using assms by (induction xs) auto

lemma remove1_middle: "f \<notin> set ys \<Longrightarrow> remove1 f (ys @ f # zs) = ys @ zs"
  by (simp add: remove1_append)

lemma fst_set_filter: "fst ` set (filter (\<lambda>e. fst e \<noteq> f) es) = fst ` set es - {f}"
  by force

lemma set_unlink_subset: "set (unlink f es) \<subseteq> set es"
  by (induction es) auto

lemma sorted_unlink: "sorted (map snd es) \<Longrightarrow> sorted (map snd (unlink f es))"
proof (induction es)
  case Nil
  then show ?case by simp
next
  case (Cons e es)
  then show ?case using set_unlink_subset [of f es] by auto
qed

section \<open>The invariant and the operations\<close>

subsection \<open>What the invariant gives\<close>

lemma invarD:
  assumes "invar s"
  shows "\<not> latch s" and "1 \<le> replacer_k s"
    and "distinct (new_frames s)" and "distinct (map fst (k_frames s))"
    and "\<And>f. f \<in> set (new_frames s) \<longleftrightarrow> 1 \<le> record_cnt s f \<and> record_cnt s f < replacer_k s"
    and "\<And>f. f \<in> fst ` set (k_frames s) \<longleftrightarrow> replacer_k s \<le> record_cnt s f"
    and "curr_size s = card {f. 0 < record_cnt s f \<and> evictable s f}"
    and "sorted (map snd (k_frames s))"
    and "\<And>f. length (hist s f) = min (record_cnt s f) (replacer_k s)"
    and "\<And>e. e \<in> set (k_frames s) \<Longrightarrow> snd e = hd (hist s (fst e))"
  using assms unfolding invar_def by blast+

lemma tracked_eq:
  assumes "invar s"
  shows "{f. 0 < record_cnt s f} = set (new_frames s) \<union> fst ` set (k_frames s)"
proof -
  have "0 < record_cnt s f \<longleftrightarrow> f \<in> set (new_frames s) \<union> fst ` set (k_frames s)" for f
    using invarD(2,5,6) [OF assms] by (simp only: Un_iff) (metis One_nat_def Suc_leI not_le_imp_less less_le_trans zero_less_one)
  then show ?thesis by blast
qed

lemma finite_tracked: "invar s \<Longrightarrow> finite {f. 0 < record_cnt s f}"
  by (simp add: tracked_eq)

lemma finite_evictables: "invar s \<Longrightarrow> finite {f. 0 < record_cnt s f \<and> evictable s f}"
  by (rule finite_subset [OF _ finite_tracked]) auto

lemma curr_size_pos:
  assumes "invar s" "0 < record_cnt s f" "evictable s f"
  shows "0 < curr_size s"
proof -
  have "f \<in> {f. 0 < record_cnt s f \<and> evictable s f}" using assms by simp
  then have "0 < card {f. 0 < record_cnt s f \<and> evictable s f}"
    using finite_evictables [OF assms(1)] by (metis card_gt_0_iff empty_iff)
  then show ?thesis using invarD(7) [OF assms(1)] by simp
qed

lemma curr_size_zero:
  assumes "invar s"
  shows "curr_size s = 0 \<longleftrightarrow> (\<forall>f. 0 < record_cnt s f \<longrightarrow> \<not> evictable s f)"
proof
  assume "curr_size s = 0"
  then show "\<forall>f. 0 < record_cnt s f \<longrightarrow> \<not> evictable s f"
    using curr_size_pos [OF assms] by fastforce
next
  assume "\<forall>f. 0 < record_cnt s f \<longrightarrow> \<not> evictable s f"
  then have "{f. 0 < record_cnt s f \<and> evictable s f} = {}" by blast
  then have "card {f. 0 < record_cnt s f \<and> evictable s f} = 0" by (simp only: card.empty)
  then show "curr_size s = 0" by (simp only: invarD(7) [OF assms])
qed

lemma evictables_clear:
  "{g. 0 < ((record_cnt s)(f := 0)) g \<and> evictable s g}
   = {g. 0 < record_cnt s g \<and> evictable s g} - {f}"
  by auto

lemma card_evictables_clear:
  assumes "invar s" "0 < record_cnt s f" "evictable s f"
  shows "card {g. 0 < ((record_cnt s)(f := 0)) g \<and> evictable s g} = curr_size s - 1"
proof -
  have "f \<in> {g. 0 < record_cnt s g \<and> evictable s g}" using assms by simp
  then show ?thesis
    unfolding evictables_clear invarD(7) [OF assms(1)]
    by (simp add: finite_evictables [OF assms(1)])
qed

text \<open>Clearing a frame of the cold list, as Evict and Remove do.\<close>

lemma invar_clear_new:
  assumes "invar s" "f \<in> set (new_frames s)" "evictable s f"
  shows "invar (s\<lparr>record_cnt := (record_cnt s)(f := 0),
                  new_frames := remove1 f (new_frames s),
                  hist := (hist s)(f := []),
                  curr_size := curr_size s - 1\<rparr>)"
proof -
  note I = invarD [OF assms(1)]
  from assms(2) I(5) have c: "1 \<le> record_cnt s f" "record_cnt s f < replacer_k s" by auto
  then have notk: "f \<notin> fst ` set (k_frames s)" using I(6) by auto
  have card: "curr_size s - 1 = card {g. 0 < ((record_cnt s)(f := 0)) g \<and> evictable s g}"
    using card_evictables_clear [OF assms(1) _ assms(3)] c by simp
  have keys: "\<forall>e\<in>set (k_frames s). snd e = hd (((hist s)(f := [])) (fst e))"
  proof
    fix e assume e: "e \<in> set (k_frames s)"
    with notk have "fst e \<noteq> f" by force
    with I(10) [OF e] show "snd e = hd (((hist s)(f := [])) (fst e))" by simp
  qed
  have new: "\<forall>g. g \<in> set (remove1 f (new_frames s)) \<longleftrightarrow>
      1 \<le> ((record_cnt s)(f := 0)) g \<and> ((record_cnt s)(f := 0)) g < replacer_k s"
    using I(5) by (simp add: set_remove1_eq [OF I(3)])
  have warm: "\<forall>g. g \<in> fst ` set (k_frames s) \<longleftrightarrow> replacer_k s \<le> ((record_cnt s)(f := 0)) g"
    using I(6) notk I(2) by auto
  have len: "\<forall>g. length (((hist s)(f := [])) g) = min (((record_cnt s)(f := 0)) g) (replacer_k s)"
    using I(9) by simp
  show ?thesis
    unfolding invar_def
    using I(1-4,8) card keys new warm len by simp
qed

lemma invar_clear_k:
  assumes "invar s" "f \<in> fst ` set (k_frames s)" "evictable s f"
  shows "invar (s\<lparr>record_cnt := (record_cnt s)(f := 0),
                  k_frames := unlink f (k_frames s),
                  hist := (hist s)(f := []),
                  curr_size := curr_size s - 1\<rparr>)"
proof -
  note I = invarD [OF assms(1)]
  from assms(2) I(6) have c: "replacer_k s \<le> record_cnt s f" by auto
  with I(2) have pos: "0 < record_cnt s f" by simp
  have card: "curr_size s - 1 = card {g. 0 < ((record_cnt s)(f := 0)) g \<and> evictable s g}"
    using card_evictables_clear [OF assms(1) pos assms(3)] by simp
  have ul: "unlink f (k_frames s) = filter (\<lambda>e. fst e \<noteq> f) (k_frames s)"
    using I(4) by (rule unlink_filter)
  have keys: "\<forall>e\<in>set (filter (\<lambda>e. fst e \<noteq> f) (k_frames s)).
      snd e = hd (((hist s)(f := [])) (fst e))"
    using I(10) by simp
  have new: "\<forall>g. g \<in> set (new_frames s) \<longleftrightarrow>
      1 \<le> ((record_cnt s)(f := 0)) g \<and> ((record_cnt s)(f := 0)) g < replacer_k s"
    using I(5) c by auto
  have warm: "\<forall>g. g \<in> fst ` set (filter (\<lambda>e. fst e \<noteq> f) (k_frames s))
      \<longleftrightarrow> replacer_k s \<le> ((record_cnt s)(f := 0)) g"
    unfolding fst_set_filter using I(6) I(2) by auto
  have len: "\<forall>g. length (((hist s)(f := [])) g) = min (((record_cnt s)(f := 0)) g) (replacer_k s)"
    using I(9) by simp
  have srt: "sorted (map snd (filter (\<lambda>e. fst e \<noteq> f) (k_frames s)))"
    using I(8) by (rule sorted_filter)
  have dst: "distinct (map fst (filter (\<lambda>e. fst e \<noteq> f) (k_frames s)))"
    using I(4) by (rule distinct_map_filter)
  show ?thesis
    unfolding invar_def ul
    using I(1-3) card keys new warm len srt dst by simp
qed

subsection \<open>Evict\<close>

lemma Evict_cold:
  assumes "invar s" "find (evictable s) (rev (new_frames s)) = Some f"
  shows "Evict s = Ok (Some f)
           (s\<lparr>record_cnt := (record_cnt s)(f := 0),
              new_frames := remove1 f (new_frames s),
              hist := (hist s)(f := []),
              curr_size := curr_size s - 1\<rparr>)"
proof -
  from find_rev_in [OF assms(2)] have f: "f \<in> set (new_frames s)" "evictable s f" by auto
  with invarD(5) [OF assms(1)] have "0 < record_cnt s f" by auto
  from curr_size_pos [OF assms(1) this f(2)] have "curr_size s \<noteq> 0" by simp
  with assms(2) f invarD(1) [OF assms(1)] show ?thesis
    by (simp add: Evict_def lock_guard_def Evict_body_def Size_def erase_new_def dec_size_t_def)
qed

lemma Evict_warm:
  assumes "invar s" "find (evictable s) (rev (new_frames s)) = None"
    "scan_k (evictable s) (k_frames s) = Some (f, l)"
  shows "Evict s = Ok (Some f)
           (s\<lparr>record_cnt := (record_cnt s)(f := 0),
              k_frames := unlink f (k_frames s),
              hist := (hist s)(f := []),
              curr_size := curr_size s - 1\<rparr>)"
proof -
  note u = scan_k_unlink [OF invarD(4) [OF assms(1)] assms(3)]
  from u(2) invarD(6) [OF assms(1)] invarD(2) [OF assms(1)] have "0 < record_cnt s f" by auto
  from curr_size_pos [OF assms(1) this u(3)] have "curr_size s \<noteq> 0" by simp
  with assms(2,3) u(1) invarD(1) [OF assms(1)] show ?thesis
    by (simp add: Evict_def lock_guard_def Evict_body_def Size_def dec_size_t_def)
qed

lemma Evict_none:
  assumes "invar s" "find (evictable s) (rev (new_frames s)) = None"
    "scan_k (evictable s) (k_frames s) = None"
  shows "Evict s = Ok None s"
  using assms(2,3) invarD(1) [OF assms(1)]
  by (simp add: Evict_def lock_guard_def Evict_body_def)

lemma Evict_invar:
  assumes "invar s" "Evict s = Ok r s'"
  shows "invar s'"
proof (cases "find (evictable s) (rev (new_frames s))")
  case (Some f)
  from find_rev_in [OF Some] have f: "f \<in> set (new_frames s)" "evictable s f" by auto
  from Evict_cold [OF assms(1) Some] assms(2) invar_clear_new [OF assms(1) f]
  show ?thesis by simp
next
  case None
  show ?thesis
  proof (cases "scan_k (evictable s) (k_frames s)")
    case None
    with Evict_none [OF assms(1) \<open>find _ _ = None\<close>] assms show ?thesis by simp
  next
    case (Some p)
    obtain f l where p: "p = (f, l)" by (cases p)
    note u = scan_k_unlink [OF invarD(4) [OF assms(1)] Some [unfolded p]]
    from Evict_warm [OF assms(1) None Some [unfolded p]] assms(2)
      invar_clear_k [OF assms(1) u(2,3)]
    show ?thesis by simp
  qed
qed

lemma Evict_no_throw: "Evict s \<noteq> Throw e s'"
  by (simp add: Evict_def lock_guard_def Evict_body_def
      split: option.splits prod.splits result.splits)

subsection \<open>Remove\<close>

lemma Remove_invalid:
  assumes "\<not> latch s" "f > static_cast_frame_id_t (replacer_size s)"
  shows "Remove s f = Throw InvalidFrame s"
  using assms by (simp add: Remove_def lock_guard_def Remove_body_def)

lemma Remove_untracked:
  assumes "\<not> latch s" "f \<le> static_cast_frame_id_t (replacer_size s)" "record_cnt s f = 0"
  shows "Remove s f = Ok () s"
  using assms by (simp add: Remove_def lock_guard_def Remove_body_def)

lemma Remove_pinned:
  assumes "\<not> latch s" "f \<le> static_cast_frame_id_t (replacer_size s)" "0 < record_cnt s f" "\<not> evictable s f"
  shows "Remove s f = Throw IllegalRemoval s"
  using assms by (simp add: Remove_def lock_guard_def Remove_body_def)

lemma Remove_cold:
  assumes "invar s" "f \<le> static_cast_frame_id_t (replacer_size s)" "0 < record_cnt s f" "evictable s f"
    "record_cnt s f < replacer_k s"
  shows "Remove s f = Ok ()
           (s\<lparr>record_cnt := (record_cnt s)(f := 0),
              new_frames := remove1 f (new_frames s),
              hist := (hist s)(f := []),
              curr_size := curr_size s - 1\<rparr>)"
proof -
  from assms invarD(5) [OF assms(1)] have f: "f \<in> set (new_frames s)" by simp
  from curr_size_pos [OF assms(1,3,4)] have "curr_size s \<noteq> 0" by simp
  with assms f invarD(1) [OF assms(1)] show ?thesis
    by (simp add: Remove_def lock_guard_def Remove_body_def erase_new_def dec_size_t_def)
qed

lemma Remove_warm:
  assumes "invar s" "f \<le> static_cast_frame_id_t (replacer_size s)" "0 < record_cnt s f" "evictable s f"
    "replacer_k s \<le> record_cnt s f"
  shows "Remove s f = Ok ()
           (s\<lparr>record_cnt := (record_cnt s)(f := 0),
              k_frames := unlink f (k_frames s),
              hist := (hist s)(f := []),
              curr_size := curr_size s - 1\<rparr>)"
proof -
  from assms invarD(6) [OF assms(1)] have f: "f \<in> fst ` set (k_frames s)" by simp
  from curr_size_pos [OF assms(1,3,4)] have "curr_size s \<noteq> 0" by simp
  with assms f invarD(1) [OF assms(1)] show ?thesis
    by (simp add: Remove_def lock_guard_def Remove_body_def erase_k_def dec_size_t_def)
qed

lemma Remove_invar:
  assumes "invar s" "state_after (Remove s f) = Some s'"
  shows "invar s'"
proof -
  note l = invarD(1) [OF assms(1)]
  consider (inv) "f > static_cast_frame_id_t (replacer_size s)"
    | (un) "f \<le> static_cast_frame_id_t (replacer_size s)" "record_cnt s f = 0"
    | (pin) "f \<le> static_cast_frame_id_t (replacer_size s)" "0 < record_cnt s f" "\<not> evictable s f"
    | (cold) "f \<le> static_cast_frame_id_t (replacer_size s)" "0 < record_cnt s f" "evictable s f"
        "record_cnt s f < replacer_k s"
    | (warm) "f \<le> static_cast_frame_id_t (replacer_size s)" "0 < record_cnt s f" "evictable s f"
        "replacer_k s \<le> record_cnt s f"
    by linarith
  then show ?thesis
  proof cases
    case inv
    with Remove_invalid [OF l] assms show ?thesis by simp
  next
    case un
    with Remove_untracked [OF l] assms show ?thesis by simp
  next
    case pin
    with Remove_pinned [OF l] assms show ?thesis by simp
  next
    case cold
    from cold invarD(5) [OF assms(1)] have "f \<in> set (new_frames s)" by simp
    from invar_clear_new [OF assms(1) this cold(3)] Remove_cold [OF assms(1) cold] assms(2)
    show ?thesis by simp
  next
    case warm
    from warm invarD(6) [OF assms(1)] have "f \<in> fst ` set (k_frames s)" by simp
    from invar_clear_k [OF assms(1) this warm(3)] Remove_warm [OF assms(1) warm] assms(2)
    show ?thesis by simp
  qed
qed

subsection \<open>SetEvictable\<close>

lemma SetEvictable_eq:
  assumes "\<not> latch s"
  shows "SetEvictable s f v = Ok ()
    (if record_cnt s f = 0 then s
     else if evictable s f \<and> \<not> v then
       s\<lparr>evictable := (evictable s)(f := False), max_size := max_size s - 1,
         curr_size := dec_size_t (curr_size s)\<rparr>
     else if \<not> evictable s f \<and> v then
       s\<lparr>evictable := (evictable s)(f := True), max_size := max_size s + 1,
         curr_size := curr_size s + 1\<rparr>
     else s)"
proof -
  have "(evictable s)(f := v) = evictable s" if "evictable s f = v"
    using that by auto
  with assms show ?thesis
    by (auto simp: SetEvictable_def lock_guard_def SetEvictable_body_def Let_def)
qed

lemma evictables_pin:
  "0 < record_cnt s f \<Longrightarrow>
   {g. 0 < record_cnt s g \<and> ((evictable s)(f := False)) g}
   = {g. 0 < record_cnt s g \<and> evictable s g} - {f}"
  by auto

lemma evictables_unpin:
  "0 < record_cnt s f \<Longrightarrow>
   {g. 0 < record_cnt s g \<and> ((evictable s)(f := True)) g}
   = insert f {g. 0 < record_cnt s g \<and> evictable s g}"
  by auto

lemma SetEvictable_invar:
  assumes "invar s" "SetEvictable s f v = Ok u s'"
  shows "invar s'"
proof -
  note I = invarD [OF assms(1)]
  note eq = SetEvictable_eq [OF I(1), of f v]
  consider (same) "record_cnt s f = 0 \<or> evictable s f = v"
    | (pin) "0 < record_cnt s f" "evictable s f" "\<not> v"
    | (unpin) "0 < record_cnt s f" "\<not> evictable s f" "v"
    by auto
  then show ?thesis
  proof cases
    case same
    with eq assms(2) have "s' = s" by auto
    with assms(1) show ?thesis by simp
  next
    case pin
    from curr_size_pos [OF assms(1) pin(1,2)] have pos: "0 < curr_size s" .
    with pin eq assms(2) have s': "s' = s\<lparr>evictable := (evictable s)(f := False),
        max_size := max_size s - 1, curr_size := curr_size s - 1\<rparr>"
      by (simp add: dec_size_t_def)
    have "f \<in> {g. 0 < record_cnt s g \<and> evictable s g}" using pin by simp
    then have "curr_size s - 1 = card {g. 0 < record_cnt s g \<and> ((evictable s)(f := False)) g}"
      unfolding evictables_pin [OF pin(1)] I(7)
      by (simp add: finite_evictables [OF assms(1)])
    then show ?thesis
      unfolding s' invar_def using I(1-6,8-10) by simp
  next
    case unpin
    with eq assms(2) have s': "s' = s\<lparr>evictable := (evictable s)(f := True),
        max_size := max_size s + 1, curr_size := curr_size s + 1\<rparr>"
      by simp
    have "f \<notin> {g. 0 < record_cnt s g \<and> evictable s g}" using unpin by simp
    then have "curr_size s + 1 = card {g. 0 < record_cnt s g \<and> ((evictable s)(f := True)) g}"
      unfolding evictables_unpin [OF unpin(1)] I(7)
      by (simp add: finite_evictables [OF assms(1)])
    then show ?thesis
      unfolding s' invar_def using I(1-6,8-10) by simp
  qed
qed

subsection \<open>RecordAccess\<close>

lemma RecordAccess_invalid:
  assumes "\<not> latch s" "f > static_cast_frame_id_t (replacer_size s)"
  shows "RecordAccess s f = Throw InvalidFrame s"
  using assms by (simp add: RecordAccess_def lock_guard_def RecordAccess_body_def)

lemma Evict_locked: "latch s \<Longrightarrow> Evict s = Undefined Relock"
  by (simp add: Evict_def lock_guard_def)

lemma RecordAccess_relock:
  assumes "\<not> latch s" "f \<le> static_cast_frame_id_t (replacer_size s)" "record_cnt s f = 0"
    "curr_size s = replacer_size s"
  shows "RecordAccess s f = Undefined Relock"
  using assms
  by (simp add: RecordAccess_def lock_guard_def RecordAccess_body_def Let_def Evict_locked)

lemma RecordAccess_first_k1:
  assumes "invar s" "f \<le> static_cast_frame_id_t (replacer_size s)" "record_cnt s f = 0"
    "curr_size s \<noteq> replacer_size s" "replacer_k s = 1"
  shows "RecordAccess s f = Ok ()
     (s\<lparr>current_timestamp := current_timestamp s + 1,
        hist := (hist s)(f := [current_timestamp s + 1]),
        record_cnt := (record_cnt s)(f := 1),
        evictable := (evictable s)(f := True),
        curr_size := curr_size s + 1,
        k_frames := insert_upper (f, current_timestamp s + 1) (k_frames s)\<rparr>)"
proof -
  note I = invarD [OF assms(1)]
  from I(9) [of f] assms(3) have h: "hist s f = []" by simp
  have p: "partitioned (f, Suc (current_timestamp s)) (k_frames s)"
    using I(8) by (rule sorted_partitioned)
  from assms(2-5) I(1) h p show ?thesis
    by (simp add: RecordAccess_def lock_guard_def RecordAccess_body_def Let_def
        erase_new_def insert_k_def upper_bound_insert_def)
qed

lemma RecordAccess_first:
  assumes "invar s" "f \<le> static_cast_frame_id_t (replacer_size s)" "record_cnt s f = 0"
    "curr_size s \<noteq> replacer_size s" "1 < replacer_k s"
  shows "RecordAccess s f = Ok ()
     (s\<lparr>current_timestamp := current_timestamp s + 1,
        hist := (hist s)(f := [current_timestamp s + 1]),
        record_cnt := (record_cnt s)(f := 1),
        evictable := (evictable s)(f := True),
        curr_size := curr_size s + 1,
        new_frames := f # new_frames s\<rparr>)"
proof -
  note I = invarD [OF assms(1)]
  from I(9) [of f] assms(3) have h: "hist s f = []" by simp
  from assms(2-5) I(1) h show ?thesis
    by (simp add: RecordAccess_def lock_guard_def RecordAccess_body_def Let_def)
qed

lemma RecordAccess_below_k:
  assumes "invar s" "f \<le> static_cast_frame_id_t (replacer_size s)" "0 < record_cnt s f"
    "record_cnt s f + 1 < replacer_k s"
  shows "RecordAccess s f = Ok ()
     (s\<lparr>current_timestamp := current_timestamp s + 1,
        hist := (hist s)(f := hist s f @ [current_timestamp s + 1]),
        record_cnt := (record_cnt s)(f := record_cnt s f + 1)\<rparr>)"
proof -
  note I = invarD [OF assms(1)]
  from assms(2-4) I(1) show ?thesis
    by (simp add: RecordAccess_def lock_guard_def RecordAccess_body_def Let_def)
qed

lemma RecordAccess_reach_k:
  assumes "invar s" "f \<le> static_cast_frame_id_t (replacer_size s)" "0 < record_cnt s f"
    "record_cnt s f + 1 = replacer_k s"
  shows "RecordAccess s f = Ok ()
     (s\<lparr>current_timestamp := current_timestamp s + 1,
        hist := (hist s)(f := hist s f @ [current_timestamp s + 1]),
        record_cnt := (record_cnt s)(f := record_cnt s f + 1),
        new_frames := remove1 f (new_frames s),
        k_frames := insert_upper (f, hd (hist s f)) (k_frames s)\<rparr>)"
proof -
  note I = invarD [OF assms(1)]
  from I(9) [of f] assms(3,4) have "hist s f \<noteq> []" by auto
  then obtain t h where h: "hist s f = t # h" by (cases "hist s f") auto
  from I(5) [of f] assms(3,4) have n: "f \<in> set (new_frames s)" by simp
  have p: "partitioned (f, t) (k_frames s)"
    using I(8) by (rule sorted_partitioned)
  from assms(2-4) I(1) h n p show ?thesis
    by (simp add: RecordAccess_def lock_guard_def RecordAccess_body_def Let_def
        erase_new_def insert_k_def upper_bound_insert_def)
qed

lemma RecordAccess_beyond_k:
  assumes "invar s" "f \<le> static_cast_frame_id_t (replacer_size s)" "replacer_k s \<le> record_cnt s f"
  shows "RecordAccess s f = Ok ()
     (s\<lparr>current_timestamp := current_timestamp s + 1,
        hist := (hist s)(f := tl (hist s f) @ [current_timestamp s + 1]),
        record_cnt := (record_cnt s)(f := record_cnt s f + 1),
        k_frames := insert_upper (f, hd (tl (hist s f) @ [current_timestamp s + 1]))
                      (unlink f (k_frames s))\<rparr>)"
proof -
  note I = invarD [OF assms(1)]
  from I(9) [of f] assms(3) I(2) have "hist s f \<noteq> []" by auto
  then obtain t h where h: "hist s f = t # h" by (cases "hist s f") auto
  obtain t' h' where h': "h @ [Suc (current_timestamp s)] = t' # h'"
    by (cases "h @ [Suc (current_timestamp s)]") auto
  from I(6) [of f] assms(3) have n: "f \<in> fst ` set (k_frames s)" by simp
  have p: "partitioned (f, t') (unlink f (k_frames s))"
    using I(8) by (intro sorted_partitioned sorted_unlink)
  from assms(2,3) I(1,2) h h' n p show ?thesis
    by (simp add: RecordAccess_def lock_guard_def RecordAccess_body_def Let_def
        erase_k_def insert_k_def upper_bound_insert_def)
qed

lemma evictables_first:
  "record_cnt s f = 0 \<Longrightarrow>
   {g. 0 < ((record_cnt s)(f := n + 1)) g \<and> ((evictable s)(f := True)) g}
   = insert f {g. 0 < record_cnt s g \<and> evictable s g}"
  by auto

lemma evictables_again:
  "0 < record_cnt s f \<Longrightarrow>
   {g. 0 < ((record_cnt s)(f := n + 1)) g \<and> evictable s g}
   = {g. 0 < record_cnt s g \<and> evictable s g}"
  by auto

lemma card_evictables_first:
  assumes "invar s" "record_cnt s f = 0"
  shows "curr_size s + 1 = card {g. 0 < ((record_cnt s)(f := 0 + 1)) g \<and> ((evictable s)(f := True)) g}"
proof -
  have "f \<notin> {g. 0 < record_cnt s g \<and> evictable s g}" using assms(2) by simp
  then show ?thesis
    unfolding evictables_first [OF assms(2)] invarD(7) [OF assms(1)]
    by (simp add: finite_evictables [OF assms(1)])
qed

lemma invar_first_k1:
  assumes "invar s" "record_cnt s f = 0" "replacer_k s = 1"
  shows "invar (s\<lparr>current_timestamp := current_timestamp s + 1,
        hist := (hist s)(f := [current_timestamp s + 1]),
        record_cnt := (record_cnt s)(f := 1),
        evictable := (evictable s)(f := True),
        curr_size := curr_size s + 1,
        k_frames := insert_upper (f, current_timestamp s + 1) (k_frames s)\<rparr>)"
proof -
  note I = invarD [OF assms(1)]
  let ?c = "(record_cnt s)(f := 1)" and ?h = "(hist s)(f := [current_timestamp s + 1])"
  let ?k = "insert_upper (f, current_timestamp s + 1) (k_frames s)"
  from I(6) [of f] assms(2,3) have notk: "f \<notin> fst ` set (k_frames s)" by simp
  have new: "\<forall>g. g \<in> set (new_frames s) \<longleftrightarrow> 1 \<le> ?c g \<and> ?c g < replacer_k s"
    using I(5) assms(3) by simp
  have warm: "\<forall>g. g \<in> fst ` set ?k \<longleftrightarrow> replacer_k s \<le> ?c g"
    using I(6) assms(3) by (simp add: set_insert_upper)
  have dst: "distinct (map fst ?k)"
    using notk I(4) by (simp add: distinct_insert_upper)
  have card: "curr_size s + 1 = card {g. 0 < ?c g \<and> ((evictable s)(f := True)) g}"
    using card_evictables_first [OF assms(1,2)] by simp
  have srt: "sorted (map snd ?k)"
    using I(8) by (rule sorted_insert_upper)
  have len: "\<forall>g. length (?h g) = min (?c g) (replacer_k s)"
    using I(9) assms(3) by simp
  have keys: "\<forall>e\<in>set ?k. snd e = hd (?h (fst e))"
  proof
    fix e assume "e \<in> set ?k"
    then consider "e = (f, current_timestamp s + 1)" | "e \<in> set (k_frames s)"
      by (auto simp: set_insert_upper)
    then show "snd e = hd (?h (fst e))"
    proof cases
      case 1
      then show ?thesis by simp
    next
      case 2
      with notk have "fst e \<noteq> f" by force
      with I(10) [OF 2] show ?thesis by simp
    qed
  qed
  show ?thesis
    unfolding invar_def
    using I(1-3) new warm dst card srt len keys by simp
qed

lemma invar_first:
  assumes "invar s" "record_cnt s f = 0" "1 < replacer_k s"
  shows "invar (s\<lparr>current_timestamp := current_timestamp s + 1,
        hist := (hist s)(f := [current_timestamp s + 1]),
        record_cnt := (record_cnt s)(f := 1),
        evictable := (evictable s)(f := True),
        curr_size := curr_size s + 1,
        new_frames := f # new_frames s\<rparr>)"
proof -
  note I = invarD [OF assms(1)]
  let ?c = "(record_cnt s)(f := 1)" and ?h = "(hist s)(f := [current_timestamp s + 1])"
  from I(6) [of f] assms(2,3) have notk: "f \<notin> fst ` set (k_frames s)" by simp
  from I(5) [of f] assms(2) have notn: "f \<notin> set (new_frames s)" by simp
  have new: "\<forall>g. g \<in> set (f # new_frames s) \<longleftrightarrow> 1 \<le> ?c g \<and> ?c g < replacer_k s"
    using I(5) assms(3) by simp
  have warm: "\<forall>g. g \<in> fst ` set (k_frames s) \<longleftrightarrow> replacer_k s \<le> ?c g"
    using I(6) assms(3) notk by simp
  have card: "curr_size s + 1 = card {g. 0 < ?c g \<and> ((evictable s)(f := True)) g}"
    using card_evictables_first [OF assms(1,2)] by simp
  have len: "\<forall>g. length (?h g) = min (?c g) (replacer_k s)"
    using I(9) assms(3) by simp
  have keys: "\<forall>e\<in>set (k_frames s). snd e = hd (?h (fst e))"
  proof
    fix e assume e: "e \<in> set (k_frames s)"
    with notk have "fst e \<noteq> f" by force
    with I(10) [OF e] show "snd e = hd (?h (fst e))" by simp
  qed
  show ?thesis
    unfolding invar_def
    using I(1-4,8) notn new warm card len keys by simp
qed

lemma invar_below_k:
  assumes "invar s" "0 < record_cnt s f" "record_cnt s f + 1 < replacer_k s"
  shows "invar (s\<lparr>current_timestamp := current_timestamp s + 1,
        hist := (hist s)(f := hist s f @ [current_timestamp s + 1]),
        record_cnt := (record_cnt s)(f := record_cnt s f + 1)\<rparr>)"
proof -
  note I = invarD [OF assms(1)]
  let ?c = "(record_cnt s)(f := record_cnt s f + 1)"
  let ?h = "(hist s)(f := hist s f @ [current_timestamp s + 1])"
  from I(6) [of f] assms(3) have notk: "f \<notin> fst ` set (k_frames s)" by simp
  have new: "\<forall>g. g \<in> set (new_frames s) \<longleftrightarrow> 1 \<le> ?c g \<and> ?c g < replacer_k s"
    using I(5) assms(2,3) by simp
  have warm: "\<forall>g. g \<in> fst ` set (k_frames s) \<longleftrightarrow> replacer_k s \<le> ?c g"
    using I(6) assms(3) notk by simp
  have card: "curr_size s = card {g. 0 < ?c g \<and> evictable s g}"
    unfolding evictables_again [OF assms(2)] by (rule I(7))
  have len: "\<forall>g. length (?h g) = min (?c g) (replacer_k s)"
    using I(9) assms(3) by simp
  have keys: "\<forall>e\<in>set (k_frames s). snd e = hd (?h (fst e))"
  proof
    fix e assume e: "e \<in> set (k_frames s)"
    with notk have "fst e \<noteq> f" by force
    with I(10) [OF e] show "snd e = hd (?h (fst e))" by simp
  qed
  show ?thesis
    unfolding invar_def
    using I(1-4,8) new warm card len keys by simp
qed

lemma invar_reach_k:
  assumes "invar s" "0 < record_cnt s f" "record_cnt s f + 1 = replacer_k s"
  shows "invar (s\<lparr>current_timestamp := current_timestamp s + 1,
        hist := (hist s)(f := hist s f @ [current_timestamp s + 1]),
        record_cnt := (record_cnt s)(f := record_cnt s f + 1),
        new_frames := remove1 f (new_frames s),
        k_frames := insert_upper (f, hd (hist s f)) (k_frames s)\<rparr>)"
proof -
  note I = invarD [OF assms(1)]
  let ?c = "(record_cnt s)(f := record_cnt s f + 1)"
  let ?h = "(hist s)(f := hist s f @ [current_timestamp s + 1])"
  let ?k = "insert_upper (f, hd (hist s f)) (k_frames s)"
  from I(6) [of f] assms(3) have notk: "f \<notin> fst ` set (k_frames s)" by simp
  from I(9) [of f] assms(2,3) have ne: "hist s f \<noteq> []" by auto
  have new: "\<forall>g. g \<in> set (remove1 f (new_frames s)) \<longleftrightarrow> 1 \<le> ?c g \<and> ?c g < replacer_k s"
    using I(5) assms(3) by (simp add: set_remove1_eq [OF I(3)])
  have warm: "\<forall>g. g \<in> fst ` set ?k \<longleftrightarrow> replacer_k s \<le> ?c g"
    using I(6) assms(3) by (simp add: set_insert_upper)
  have dst: "distinct (map fst ?k)"
    using notk I(4) by (simp add: distinct_insert_upper)
  have card: "curr_size s = card {g. 0 < ?c g \<and> evictable s g}"
    unfolding evictables_again [OF assms(2)] by (rule I(7))
  have srt: "sorted (map snd ?k)"
    using I(8) by (rule sorted_insert_upper)
  have len: "\<forall>g. length (?h g) = min (?c g) (replacer_k s)"
    using I(9) assms(3) by simp
  have keys: "\<forall>e\<in>set ?k. snd e = hd (?h (fst e))"
  proof
    fix e assume "e \<in> set ?k"
    then consider "e = (f, hd (hist s f))" | "e \<in> set (k_frames s)"
      by (auto simp: set_insert_upper)
    then show "snd e = hd (?h (fst e))"
    proof cases
      case 1
      with ne show ?thesis by simp
    next
      case 2
      with notk have "fst e \<noteq> f" by force
      with I(10) [OF 2] show ?thesis by simp
    qed
  qed
  show ?thesis
    unfolding invar_def
    using I(1-3) new warm dst card srt len keys by simp
qed

lemma invar_beyond_k:
  assumes "invar s" "replacer_k s \<le> record_cnt s f"
  shows "invar (s\<lparr>current_timestamp := current_timestamp s + 1,
        hist := (hist s)(f := tl (hist s f) @ [current_timestamp s + 1]),
        record_cnt := (record_cnt s)(f := record_cnt s f + 1),
        k_frames := insert_upper (f, hd (tl (hist s f) @ [current_timestamp s + 1]))
                      (unlink f (k_frames s))\<rparr>)"
proof -
  note I = invarD [OF assms(1)]
  let ?c = "(record_cnt s)(f := record_cnt s f + 1)"
  let ?h = "(hist s)(f := tl (hist s f) @ [current_timestamp s + 1])"
  let ?u = "filter (\<lambda>e. fst e \<noteq> f) (k_frames s)"
  let ?k = "insert_upper (f, hd (tl (hist s f) @ [current_timestamp s + 1])) ?u"
  have ul: "unlink f (k_frames s) = ?u"
    using I(4) by (rule unlink_filter)
  from assms(2) I(2) have pos: "0 < record_cnt s f" by simp
  from I(9) [of f] assms(2) have lh: "length (hist s f) = replacer_k s" by simp
  have new: "\<forall>g. g \<in> set (new_frames s) \<longleftrightarrow> 1 \<le> ?c g \<and> ?c g < replacer_k s"
    using I(5) assms(2) by simp
  have warm: "\<forall>g. g \<in> fst ` set ?k \<longleftrightarrow> replacer_k s \<le> ?c g"
    using I(6) assms(2) by (auto simp: set_insert_upper fst_set_filter)
  have "f \<notin> fst ` set ?u"
    unfolding fst_set_filter by simp
  then have dst: "distinct (map fst ?k)"
    using distinct_map_filter [OF I(4), of "\<lambda>e. fst e \<noteq> f"]
    by (simp only: distinct_insert_upper fst_conv simp_thms)
  have card: "curr_size s = card {g. 0 < ?c g \<and> evictable s g}"
    unfolding evictables_again [OF pos] by (rule I(7))
  have srt: "sorted (map snd ?k)"
    using I(8) by (intro sorted_insert_upper sorted_filter)
  have len: "\<forall>g. length (?h g) = min (?c g) (replacer_k s)"
    using I(9) I(2) lh assms(2) by simp
  have keys: "\<forall>e\<in>set ?k. snd e = hd (?h (fst e))"
  proof
    fix e assume "e \<in> set ?k"
    then consider "e = (f, hd (tl (hist s f) @ [current_timestamp s + 1]))"
      | "e \<in> set (k_frames s)" "fst e \<noteq> f"
      by (auto simp: set_insert_upper)
    then show "snd e = hd (?h (fst e))"
    proof cases
      case 1
      then show ?thesis by simp
    next
      case 2
      with I(10) [OF 2(1)] show ?thesis by simp
    qed
  qed
  show ?thesis
    unfolding invar_def ul
    using I(1-3) new warm dst card srt len keys by simp
qed

lemma RecordAccess_cases:
  assumes "invar s"
  obtains (invalid) "f > static_cast_frame_id_t (replacer_size s)"
  | (relock) "f \<le> static_cast_frame_id_t (replacer_size s)" "record_cnt s f = 0" "curr_size s = replacer_size s"
  | (first_k1) "f \<le> static_cast_frame_id_t (replacer_size s)" "record_cnt s f = 0"
      "curr_size s \<noteq> replacer_size s" "replacer_k s = 1"
  | (first) "f \<le> static_cast_frame_id_t (replacer_size s)" "record_cnt s f = 0"
      "curr_size s \<noteq> replacer_size s" "1 < replacer_k s"
  | (below_k) "f \<le> static_cast_frame_id_t (replacer_size s)" "0 < record_cnt s f"
      "record_cnt s f + 1 < replacer_k s"
  | (reach_k) "f \<le> static_cast_frame_id_t (replacer_size s)" "0 < record_cnt s f"
      "record_cnt s f + 1 = replacer_k s"
  | (beyond_k) "f \<le> static_cast_frame_id_t (replacer_size s)" "replacer_k s \<le> record_cnt s f"
  using invarD(2) [OF assms] by (cases "record_cnt s f = 0") linarith+

lemma RecordAccess_invar:
  assumes "invar s" "state_after (RecordAccess s f) = Some s'"
  shows "invar s'"
proof -
  note l = invarD(1) [OF assms(1)]
  from assms(1) show ?thesis
  proof (cases rule: RecordAccess_cases [where f = f])
    case invalid
    with RecordAccess_invalid [OF l] assms show ?thesis by simp
  next
    case relock
    with RecordAccess_relock [OF l] assms show ?thesis by simp
  next
    case first_k1
    from RecordAccess_first_k1 [OF assms(1) first_k1] invar_first_k1 [OF assms(1) first_k1(2,4)]
      assms(2)
    show ?thesis by simp
  next
    case first
    from RecordAccess_first [OF assms(1) first] invar_first [OF assms(1) first(2,4)] assms(2)
    show ?thesis by simp
  next
    case below_k
    from RecordAccess_below_k [OF assms(1) below_k] invar_below_k [OF assms(1) below_k(2,3)] assms(2)
    show ?thesis by simp
  next
    case reach_k
    from RecordAccess_reach_k [OF assms(1) reach_k] invar_reach_k [OF assms(1) reach_k(2,3)] assms(2)
    show ?thesis by simp
  next
    case beyond_k
    from RecordAccess_beyond_k [OF assms(1) beyond_k] invar_beyond_k [OF assms(1) beyond_k(2)] assms(2)
    show ?thesis by simp
  qed
qed

lemma RecordAccess_throw:
  assumes "invar s" "RecordAccess s f = Throw e s'"
  shows "s' = s \<and> e = InvalidFrame \<and> static_cast_frame_id_t (replacer_size s) < f"
  using assms(1)
proof (cases rule: RecordAccess_cases [where f = f])
  case invalid
  with RecordAccess_invalid [OF invarD(1) [OF assms(1)]] assms(2) show ?thesis by simp
next
  case relock
  with RecordAccess_relock [OF invarD(1) [OF assms(1)]] assms(2) show ?thesis by simp
next
  case first_k1
  with RecordAccess_first_k1 [OF assms(1) first_k1] assms(2) show ?thesis by simp
next
  case first
  with RecordAccess_first [OF assms(1) first] assms(2) show ?thesis by simp
next
  case below_k
  with RecordAccess_below_k [OF assms(1) below_k] assms(2) show ?thesis by simp
next
  case reach_k
  with RecordAccess_reach_k [OF assms(1) reach_k] assms(2) show ?thesis by simp
next
  case beyond_k
  with RecordAccess_beyond_k [OF assms(1) beyond_k] assms(2) show ?thesis by simp
qed

lemma RecordAccess_hist:
  assumes "invar s" "RecordAccess s f = Ok () s'"
  shows "current_timestamp s' = current_timestamp s + 1"
    and "hist s' f = (if record_cnt s f < replacer_k s then hist s f else tl (hist s f))
           @ [current_timestamp s + 1]"
    and "record_cnt s' = (record_cnt s)(f := record_cnt s f + 1)"
    and "g \<noteq> f \<Longrightarrow> hist s' g = hist s g"
proof -
  note l = invarD(1) [OF assms(1)] and h = invarD(9) [OF assms(1), of f]
  have "current_timestamp s' = current_timestamp s + 1 \<and>
    hist s' f = (if record_cnt s f < replacer_k s then hist s f else tl (hist s f))
           @ [current_timestamp s + 1] \<and>
    record_cnt s' = (record_cnt s)(f := record_cnt s f + 1) \<and>
    (g \<noteq> f \<longrightarrow> hist s' g = hist s g)"
    using assms(1)
  proof (cases rule: RecordAccess_cases [where f = f])
    case invalid
    with RecordAccess_invalid [OF l] assms(2) show ?thesis by simp
  next
    case relock
    with RecordAccess_relock [OF l] assms(2) show ?thesis by simp
  next
    case first_k1
    with RecordAccess_first_k1 [OF assms(1) first_k1] assms(2) h show ?thesis by auto
  next
    case first
    with RecordAccess_first [OF assms(1) first] assms(2) h show ?thesis by auto
  next
    case below_k
    with RecordAccess_below_k [OF assms(1) below_k] assms(2) show ?thesis by auto
  next
    case reach_k
    with RecordAccess_reach_k [OF assms(1) reach_k] assms(2) show ?thesis by auto
  next
    case beyond_k
    with RecordAccess_beyond_k [OF assms(1) beyond_k] assms(2) show ?thesis by auto
  qed
  then show "current_timestamp s' = current_timestamp s + 1"
    and "hist s' f = (if record_cnt s f < replacer_k s then hist s f else tl (hist s f))
           @ [current_timestamp s + 1]"
    and "record_cnt s' = (record_cnt s)(f := record_cnt s f + 1)"
    and "g \<noteq> f \<Longrightarrow> hist s' g = hist s g"
    by blast+
qed

lemma invar_LRUKReplacer: "1 \<le> k \<Longrightarrow> invar (LRUKReplacer n k)"
  by (simp add: invar_def LRUKReplacer_def)

subsection \<open>Runs keep the invariant\<close>

lemma step_invar: "invar s \<Longrightarrow> step s c = Some s' \<Longrightarrow> invar s'"
proof (cases c)
  case (CallRecordAccess f)
  assume "invar s" "step s c = Some s'"
  with CallRecordAccess show ?thesis by (auto intro: RecordAccess_invar)
next
  case CallEvict
  assume "invar s" "step s c = Some s'"
  with CallEvict Evict_no_throw show ?thesis
    by (cases "Evict s") (auto intro: Evict_invar)
next
  case (CallSetEvictable f v)
  assume "invar s" "step s c = Some s'"
  with CallSetEvictable SetEvictable_eq [OF invarD(1), of s f v] show ?thesis
    by (cases "SetEvictable s f v") (auto intro: SetEvictable_invar simp del: SetEvictable_eq)
next
  case (CallRemove f)
  assume "invar s" "step s c = Some s'"
  with CallRemove show ?thesis by (auto intro: Remove_invar)
qed

lemma run_invar: "invar s \<Longrightarrow> run s cs = Some s' \<Longrightarrow> invar s'"
proof (induction cs arbitrary: s)
  case Nil
  then show ?case by simp
next
  case (Cons c cs)
  from Cons.prems(2) obtain s1 where s1: "step s c = Some s1" "run s1 cs = Some s'"
    by (auto split: option.splits)
  from step_invar [OF Cons.prems(1) s1(1)] have "invar s1" .
  from Cons.IH [OF this s1(2)] show ?case .
qed

lemma reachable_invar:
  "1 \<le> k \<Longrightarrow> run (LRUKReplacer n k) cs = Some s \<Longrightarrow> invar s"
  by (rule run_invar [OF invar_LRUKReplacer])

subsection \<open>Capacity and K stay as constructed\<close>

lemma lock_guard_params:
  assumes "\<And>s s'. state_after (body s) = Some s' \<Longrightarrow>
     replacer_k s' = replacer_k s \<and> replacer_size s' = replacer_size s"
    and "state_after (lock_guard body s) = Some s'"
  shows "replacer_k s' = replacer_k s \<and> replacer_size s' = replacer_size s"
proof (cases "latch s")
  case True
  with assms(2) show ?thesis by (simp add: lock_guard_def)
next
  case False
  show ?thesis
  proof (cases "body (s\<lparr>latch := True\<rparr>)")
    case (Ok x t)
    with assms(1) [of "s\<lparr>latch := True\<rparr>" t] assms(2) False show ?thesis
      by (auto simp: lock_guard_def)
  next
    case (Throw e t)
    with assms(1) [of "s\<lparr>latch := True\<rparr>" t] assms(2) False show ?thesis
      by (auto simp: lock_guard_def)
  next
    case (Undefined u)
    with assms(2) False show ?thesis by (simp add: lock_guard_def)
  qed
qed

lemma Evict_body_params:
  "state_after (Evict_body s) = Some s' \<Longrightarrow>
   replacer_k s' = replacer_k s \<and> replacer_size s' = replacer_size s"
  by (auto simp: Evict_body_def split: if_splits option.splits prod.splits)

lemma Evict_params:
  "state_after (Evict s) = Some s' \<Longrightarrow>
   replacer_k s' = replacer_k s \<and> replacer_size s' = replacer_size s"
  unfolding Evict_def by (rule lock_guard_params [OF Evict_body_params])

lemma Remove_params:
  "state_after (Remove s f) = Some s' \<Longrightarrow>
   replacer_k s' = replacer_k s \<and> replacer_size s' = replacer_size s"
  unfolding Remove_def
  by (rule lock_guard_params)
    (auto simp: Remove_body_def Let_def split: if_splits option.splits)

lemma SetEvictable_params:
  "state_after (SetEvictable s f v) = Some s' \<Longrightarrow>
   replacer_k s' = replacer_k s \<and> replacer_size s' = replacer_size s"
  unfolding SetEvictable_def
  by (rule lock_guard_params)
    (auto simp: SetEvictable_body_def Let_def split: if_splits)

lemma RecordAccess_params:
  assumes "invar s" "state_after (RecordAccess s f) = Some s'"
  shows "replacer_k s' = replacer_k s \<and> replacer_size s' = replacer_size s"
proof -
  note l = invarD(1) [OF assms(1)]
  from assms(1) show ?thesis
  proof (cases rule: RecordAccess_cases [where f = f])
    case invalid
    with RecordAccess_invalid [OF l] assms show ?thesis by simp
  next
    case relock
    with RecordAccess_relock [OF l] assms show ?thesis by simp
  next
    case first_k1
    from RecordAccess_first_k1 [OF assms(1) first_k1] assms(2) show ?thesis by auto
  next
    case first
    from RecordAccess_first [OF assms(1) first] assms(2) show ?thesis by auto
  next
    case below_k
    from RecordAccess_below_k [OF assms(1) below_k] assms(2) show ?thesis by auto
  next
    case reach_k
    from RecordAccess_reach_k [OF assms(1) reach_k] assms(2) show ?thesis by auto
  next
    case beyond_k
    from RecordAccess_beyond_k [OF assms(1) beyond_k] assms(2) show ?thesis by auto
  qed
qed

lemma step_params:
  "invar s \<Longrightarrow> step s c = Some s' \<Longrightarrow>
   replacer_k s' = replacer_k s \<and> replacer_size s' = replacer_size s"
  by (cases c) (simp_all add: RecordAccess_params Evict_params SetEvictable_params Remove_params)

lemma run_params:
  "invar s \<Longrightarrow> run s cs = Some s' \<Longrightarrow>
   replacer_k s' = replacer_k s \<and> replacer_size s' = replacer_size s"
proof (induction cs arbitrary: s)
  case Nil
  then show ?case by simp
next
  case (Cons c cs)
  from Cons.prems(2) obtain s1 where s1: "step s c = Some s1" "run s1 cs = Some s'"
    by (auto split: option.splits)
  from step_invar [OF Cons.prems(1) s1(1)] have "invar s1" .
  from Cons.IH [OF this s1(2)] step_params [OF Cons.prems(1) s1(1)] show ?case by simp
qed

lemma reachable_params:
  assumes "1 \<le> k" "run (LRUKReplacer n k) cs = Some s"
  shows "replacer_k s = k" and "replacer_size s = n"
  using run_params [OF invar_LRUKReplacer [OF assms(1)] assms(2)]
  by (simp_all add: LRUKReplacer_def)

subsection \<open>Where RecordAccess puts a frame in k_frames\<close>

lemma warm_placement:
  assumes "invar s" "RecordAccess s f = Ok () s'" "replacer_k s \<le> record_cnt s' f"
  shows "k_frames s' =
     insert_upper (f, hd (hist s' f)) (filter (\<lambda>e. fst e \<noteq> f) (k_frames s))"
  using assms(1)
proof (cases rule: RecordAccess_cases [where f = f])
  case invalid
  with RecordAccess_invalid [OF invarD(1) [OF assms(1)]] assms(2) show ?thesis by simp
next
  case relock
  with RecordAccess_relock [OF invarD(1) [OF assms(1)]] assms(2) show ?thesis by simp
next
  case first_k1
  from invarD(6) [OF assms(1), of f] first_k1 have "f \<notin> fst ` set (k_frames s)" by simp
  then have "filter (\<lambda>e. fst e \<noteq> f) (k_frames s) = k_frames s" by (rule filter_fst_id)
  with RecordAccess_first_k1 [OF assms(1) first_k1] assms(2) show ?thesis by auto
next
  case first
  with RecordAccess_first [OF assms(1) first] assms(2,3) show ?thesis by auto
next
  case below_k
  with RecordAccess_below_k [OF assms(1) below_k] assms(2,3) show ?thesis by auto
next
  case reach_k
  from invarD(6) [OF assms(1), of f] reach_k have "f \<notin> fst ` set (k_frames s)" by simp
  then have 1: "filter (\<lambda>e. fst e \<noteq> f) (k_frames s) = k_frames s" by (rule filter_fst_id)
  from invarD(9) [OF assms(1), of f] reach_k have "hist s f \<noteq> []" by auto
  with 1 RecordAccess_reach_k [OF assms(1) reach_k] assms(2) show ?thesis by auto
next
  case beyond_k
  with RecordAccess_beyond_k [OF assms(1) beyond_k] assms(2)
    unlink_filter [OF invarD(4) [OF assms(1)], of f]
  show ?thesis by auto
qed

subsection \<open>Runs with frame ids in range\<close>

text \<open>
  When every \<open>RecordAccess\<close> of a run has a frame id in \<open>[0, capacity)\<close>, only such
  frames have a positive count; if \<open>Size\<close> then equals the capacity, every one of them has.
  So a first access with \<open>Size\<close> at the capacity needs an earlier access of a frame id
  outside the range.
\<close>

lemma Evict_record_cnt:
  assumes "invar s" "Evict s = Ok r s'" "0 < record_cnt s' g"
  shows "0 < record_cnt s g"
proof (cases "find (evictable s) (rev (new_frames s))")
  case (Some f)
  from Evict_cold [OF assms(1) Some] assms(2,3) show ?thesis by (auto split: if_splits)
next
  case None
  show ?thesis
  proof (cases "scan_k (evictable s) (k_frames s)")
    case None
    with Evict_none [OF assms(1) \<open>find _ _ = None\<close>] assms(2,3) show ?thesis by simp
  next
    case (Some p)
    obtain f l where "p = (f, l)" by (cases p)
    with Evict_warm [OF assms(1) None] Some assms(2,3) show ?thesis
      by (auto split: if_splits)
  qed
qed

lemma Remove_record_cnt:
  assumes "state_after (Remove s f) = Some s'" "0 < record_cnt s' g"
  shows "0 < record_cnt s g"
proof (cases "latch s")
  case True
  with assms(1) show ?thesis by (simp add: Remove_def lock_guard_def)
next
  case False
  with assms show ?thesis
    by (auto simp: Remove_def lock_guard_def Remove_body_def Let_def
        split: if_splits option.splits)
qed

lemma SetEvictable_record_cnt:
  assumes "\<not> latch s" "state_after (SetEvictable s f v) = Some s'"
  shows "record_cnt s' = record_cnt s"
  using assms(2) SetEvictable_eq [OF assms(1), of f v] by (auto split: if_splits)

lemma step_tracked:
  assumes "invar s" "step s c = Some s'" "in_range n c" "replacer_size s = n"
    "\<forall>g. 0 < record_cnt s g \<longrightarrow> 0 \<le> g \<and> g < int n"
  shows "\<forall>g. 0 < record_cnt s' g \<longrightarrow> 0 \<le> g \<and> g < int n"
proof (cases c)
  case (CallRecordAccess f)
  show ?thesis
  proof (cases "RecordAccess s f")
    case (Ok u t)
    with CallRecordAccess assms(2) have "RecordAccess s f = Ok () s'" by simp
    from RecordAccess_hist(3) [OF assms(1) this] assms(3,5) CallRecordAccess
    show ?thesis by auto
  next
    case (Throw e t)
    with CallRecordAccess assms(2) have "RecordAccess s f = Throw e s'" by simp
    from RecordAccess_throw [OF assms(1) this] assms(5) show ?thesis by simp
  next
    case (Undefined u)
    with CallRecordAccess assms(2) show ?thesis by simp
  qed
next
  case CallEvict
  with assms(2) Evict_no_throw [of s] obtain r where "Evict s = Ok r s'"
    by (cases "Evict s") auto
  from Evict_record_cnt [OF assms(1) this] assms(5) show ?thesis by blast
next
  case (CallSetEvictable f v)
  with SetEvictable_record_cnt [OF invarD(1) [OF assms(1)], of f v s'] assms(2,5)
  show ?thesis by simp
next
  case (CallRemove f)
  with Remove_record_cnt [of s f s'] assms(2,5) show ?thesis by auto
qed

lemma run_tracked:
  assumes "invar s" "run s cs = Some s'" "list_all (in_range (replacer_size s)) cs"
    "\<forall>g. 0 < record_cnt s g \<longrightarrow> 0 \<le> g \<and> g < int (replacer_size s)"
  shows "\<forall>g. 0 < record_cnt s' g \<longrightarrow> 0 \<le> g \<and> g < int (replacer_size s)"
  using assms
proof (induction cs arbitrary: s)
  case Nil
  then show ?case by simp
next
  case (Cons c cs)
  from Cons.prems(2) obtain s1 where s1: "step s c = Some s1" "run s1 cs = Some s'"
    by (auto split: option.splits)
  note inv1 = step_invar [OF Cons.prems(1) s1(1)]
  from step_params [OF Cons.prems(1) s1(1)] have n: "replacer_size s1 = replacer_size s"
    by simp
  from Cons.prems(3) have c: "in_range (replacer_size s) c"
    and cs: "list_all (in_range (replacer_size s1)) cs" by (simp_all add: n)
  from step_tracked [OF Cons.prems(1) s1(1) c refl Cons.prems(4)]
  have "\<forall>g. 0 < record_cnt s1 g \<longrightarrow> 0 \<le> g \<and> g < int (replacer_size s1)"
    by (simp add: n)
  from Cons.IH [OF inv1 s1(2) cs this] show ?case by (simp add: n)
qed

lemma full_only_through_out_of_range:
  assumes "1 \<le> k" "run (LRUKReplacer n k) cs = Some s" "list_all (in_range n) cs"
    "0 \<le> f" "f < int n" "Size s = n"
  shows "0 < record_cnt s f"
proof -
  note inv0 = invar_LRUKReplacer [OF assms(1), of n]
  note inv = reachable_invar [OF assms(1,2)]
  have "\<forall>g. 0 < record_cnt s g \<longrightarrow> 0 \<le> g \<and> g < int (replacer_size (LRUKReplacer n k))"
    using assms(3) by (intro run_tracked [OF inv0 assms(2)]) (simp_all add: LRUKReplacer_def)
  then have sub: "{g. 0 < record_cnt s g \<and> evictable s g} \<subseteq> {0..<int n}"
    by (auto simp: LRUKReplacer_def)
  have "card {g. 0 < record_cnt s g \<and> evictable s g} = card {0..<int n}"
    using invarD(7) [OF inv] assms(6) by (simp add: Size_def)
  with sub have "{g. 0 < record_cnt s g \<and> evictable s g} = {0..<int n}"
    by (intro card_subset_eq) simp_all
  with assms(4,5) show ?thesis by auto
qed

subsection \<open>The range check\<close>

lemma frame_id_above_capacity:
  assumes "\<not> latch s" "replacer_size s < 2 ^ 31" "int (replacer_size s) < f"
  shows "RecordAccess s f = Throw InvalidFrame s" and "Remove s f = Throw InvalidFrame s"
  using assms(1,3) static_cast_frame_id_t_small [OF assms(2)]
  by (simp_all add: RecordAccess_invalid Remove_invalid)

lemmas replacer_defs =
  LRUKReplacer_def RecordAccess_def RecordAccess_body_def Evict_def Evict_body_def
  SetEvictable_def SetEvictable_body_def Remove_def Remove_body_def lock_guard_def
  Size_def erase_new_def erase_k_def insert_k_def upper_bound_insert_def dec_size_t_def
  CmpTimestamp_def static_cast_frame_id_t_def Let_def

section \<open>The claims\<close>

text \<open>
  The states of the claims are the states of runs: \<open>run (LRUKReplacer n k) cs = Some s\<close>
  with \<open>1 \<le> k\<close>, the \<open>K \<ge> 1\<close> that the construction asks for.
\<close>

subsection \<open>C1: the search order of Evict\<close>

text \<open>
  C1. In every state of a run, \<open>Evict\<close> returns the evictable frame of \<open>new_frames\<close> that
  is nearest to the back of the list (the least recent end), whatever \<open>k_frames\<close> holds;
  when \<open>new_frames\<close> has no evictable frame it returns the first evictable frame of
  \<open>k_frames\<close> from the front, the list being in ascending key order; when neither list has
  one it returns no victim and changes nothing. On success the history of the victim is
  empty, its count is 0, its node is gone from its list, every other node stays where it
  was, and \<open>Size\<close>, which was at least 1, is one less.
\<close>

theorem Evict_search:
  assumes "1 \<le> k" and "run (LRUKReplacer n k) cs = Some s"
  shows
    "(\<forall>ys f zs. new_frames s = ys @ f # zs \<and> evictable s f \<and> (\<forall>z\<in>set zs. \<not> evictable s z) \<longrightarrow>
        1 \<le> Size s \<and>
        Evict s = Ok (Some f)
          (s\<lparr>hist := (hist s)(f := []), record_cnt := (record_cnt s)(f := 0),
             new_frames := ys @ zs, curr_size := Size s - 1\<rparr>)) \<and>
     ((\<forall>x\<in>set (new_frames s). \<not> evictable s x) \<longrightarrow>
        (\<forall>xs f t ys. k_frames s = xs @ (f, t) # ys \<and> evictable s f \<and>
             (\<forall>e\<in>set xs. \<not> evictable s (fst e)) \<longrightarrow>
           1 \<le> Size s \<and>
           Evict s = Ok (Some f)
             (s\<lparr>hist := (hist s)(f := []), record_cnt := (record_cnt s)(f := 0),
                k_frames := xs @ ys, curr_size := Size s - 1\<rparr>))) \<and>
     ((\<forall>x\<in>set (new_frames s). \<not> evictable s x) \<and>
      (\<forall>e\<in>set (k_frames s). \<not> evictable s (fst e)) \<longrightarrow> Evict s = Ok None s)"
proof (intro conjI allI impI)
  note inv = reachable_invar [OF assms]
  note I = invarD [OF inv]
  {
    fix ys f zs
    assume a: "new_frames s = ys @ f # zs \<and> evictable s f \<and> (\<forall>z\<in>set zs. \<not> evictable s z)"
    then have nf: "new_frames s = ys @ f # zs" and ev: "evictable s f"
      and zs: "\<forall>z\<in>set zs. \<not> evictable s z" by blast+
    have fnd: "find (evictable s) (rev (new_frames s)) = Some f"
      unfolding nf using ev zs by (rule find_rev_last)
    from nf I(3) have "f \<notin> set ys" by simp
    then have rm: "remove1 f (new_frames s) = ys @ zs"
      unfolding nf by (rule remove1_middle)
    from a have "f \<in> set (new_frames s)" by simp
    with I(5) have "0 < record_cnt s f" by simp
    from curr_size_pos [OF inv this] a show "1 \<le> Size s" by (simp add: Size_def)
    from Evict_cold [OF inv fnd] rm
    show "Evict s = Ok (Some f)
          (s\<lparr>hist := (hist s)(f := []), record_cnt := (record_cnt s)(f := 0),
             new_frames := ys @ zs, curr_size := Size s - 1\<rparr>)"
      by (simp add: Size_def)
  }
  {
    fix xs f t ys
    assume none: "\<forall>x\<in>set (new_frames s). \<not> evictable s x"
      and a: "k_frames s = xs @ (f, t) # ys \<and> evictable s f \<and>
             (\<forall>e\<in>set xs. \<not> evictable s (fst e))"
    from none have fnd: "find (evictable s) (rev (new_frames s)) = None"
      by (simp add: find_None_iff)
    from a have kf: "k_frames s = xs @ (f, t) # ys" and ev: "evictable s f"
      and xs: "\<forall>e\<in>set xs. \<not> evictable s (fst e)" by blast+
    have sc: "scan_k (evictable s) (k_frames s) = Some (f, xs @ ys)"
      unfolding kf using ev xs by (rule scan_k_first)
    have ul: "unlink f (k_frames s) = xs @ ys"
      using I(4) unfolding kf by (rule unlink_middle)
    from a have "f \<in> fst ` set (k_frames s)" by force
    with I(6) I(2) have "0 < record_cnt s f" by auto
    from curr_size_pos [OF inv this] a show "1 \<le> Size s" by (simp add: Size_def)
    from Evict_warm [OF inv fnd sc] ul
    show "Evict s = Ok (Some f)
             (s\<lparr>hist := (hist s)(f := []), record_cnt := (record_cnt s)(f := 0),
                k_frames := xs @ ys, curr_size := Size s - 1\<rparr>)"
      by (simp add: Size_def)
  }
  {
    assume a: "(\<forall>x\<in>set (new_frames s). \<not> evictable s x) \<and>
      (\<forall>e\<in>set (k_frames s). \<not> evictable s (fst e))"
    then have "find (evictable s) (rev (new_frames s)) = None"
      and "scan_k (evictable s) (k_frames s) = None"
      by (simp_all add: find_None_iff scan_k_None)
    from Evict_none [OF inv this] show "Evict s = Ok None s" .
  }
qed

theorem Evict_search_witness:
  "(\<exists>s s'. run (LRUKReplacer 4 2) calls_cold = Some s \<and> new_frames s = [3, 2] \<and>
       k_frames s = [(1, 1)] \<and> evictable s 3 \<and> \<not> evictable s 2 \<and> evictable s 1 \<and>
       Evict s = Ok (Some 3) s' \<and> new_frames s' = [2] \<and> k_frames s' = [(1, 1)] \<and>
       hist s' 3 = [] \<and> record_cnt s' 3 = 0 \<and> Size s = 2 \<and> Size s' = 1) \<and>
   (\<exists>s s'. run (LRUKReplacer 4 2) calls_warm = Some s \<and> new_frames s = [3] \<and>
       k_frames s = [(1, 1), (2, 3)] \<and> \<not> evictable s 3 \<and> \<not> evictable s 1 \<and> evictable s 2 \<and>
       Evict s = Ok (Some 2) s' \<and> new_frames s' = [3] \<and> k_frames s' = [(1, 1)] \<and>
       hist s' 2 = [] \<and> record_cnt s' 2 = 0 \<and> Size s = 1 \<and> Size s' = 0) \<and>
   (\<exists>s. run (LRUKReplacer 4 2) calls_pinned = Some s \<and> new_frames s = [1] \<and>
       k_frames s = [] \<and> \<not> evictable s 1 \<and> Evict s = Ok None s)"
proof (intro conjI)
  have k: "(1::nat) \<le> 2" by simp
  {
  obtain s where s: "run (LRUKReplacer 4 2) calls_cold = Some s" "new_frames s = [3, 2]"
    "k_frames s = [(1, 1)]" "evictable s 3" "\<not> evictable s 2" "evictable s 1" "Size s = 2"
    by (simp add: calls_cold_def replacer_defs)
  from Evict_search [OF k s(1), THEN conjunct1, rule_format,
      where ys = "[]" and f = 3 and zs = "[2]"] s(2-)
  have "Evict s = Ok (Some 3)
          (s\<lparr>hist := (hist s)(3 := []), record_cnt := (record_cnt s)(3 := 0),
             new_frames := [] @ [2], curr_size := Size s - 1\<rparr>)"
    by simp
  with s show "\<exists>s s'. run (LRUKReplacer 4 2) calls_cold = Some s \<and> new_frames s = [3, 2] \<and>
       k_frames s = [(1, 1)] \<and> evictable s 3 \<and> \<not> evictable s 2 \<and> evictable s 1 \<and>
       Evict s = Ok (Some 3) s' \<and> new_frames s' = [2] \<and> k_frames s' = [(1, 1)] \<and>
       hist s' 3 = [] \<and> record_cnt s' 3 = 0 \<and> Size s = 2 \<and> Size s' = 1"
    by (simp add: Size_def)
  }
  {
  obtain s where s: "run (LRUKReplacer 4 2) calls_warm = Some s" "new_frames s = [3]"
    "k_frames s = [(1, 1), (2, 3)]" "\<not> evictable s 3" "\<not> evictable s 1" "evictable s 2"
    "Size s = 1"
    by (simp add: calls_warm_def replacer_defs)
  from Evict_search [OF k s(1), THEN conjunct2, THEN conjunct1, rule_format,
      where xs = "[(1, 1)]" and f = 2 and t = 3 and ys = "[]"] s(2-)
  have "Evict s = Ok (Some 2)
          (s\<lparr>hist := (hist s)(2 := []), record_cnt := (record_cnt s)(2 := 0),
             k_frames := [(1, 1)] @ [], curr_size := Size s - 1\<rparr>)"
    by simp
  with s show "\<exists>s s'. run (LRUKReplacer 4 2) calls_warm = Some s \<and> new_frames s = [3] \<and>
       k_frames s = [(1, 1), (2, 3)] \<and> \<not> evictable s 3 \<and> \<not> evictable s 1 \<and> evictable s 2 \<and>
       Evict s = Ok (Some 2) s' \<and> new_frames s' = [3] \<and> k_frames s' = [(1, 1)] \<and>
       hist s' 2 = [] \<and> record_cnt s' 2 = 0 \<and> Size s = 1 \<and> Size s' = 0"
    by (simp add: Size_def)
  }
  {
  obtain s where s: "run (LRUKReplacer 4 2) calls_pinned = Some s" "new_frames s = [1]"
    "k_frames s = []" "\<not> evictable s 1"
    by (simp add: calls_pinned_def replacer_defs)
  from Evict_search [OF k s(1), THEN conjunct2, THEN conjunct2] s(2-)
  have "Evict s = Ok None s"
    by simp
  with s show "\<exists>s. run (LRUKReplacer 4 2) calls_pinned = Some s \<and> new_frames s = [1] \<and>
       k_frames s = [] \<and> \<not> evictable s 1 \<and> Evict s = Ok None s"
    by simp
  }
qed

subsection \<open>C2: the range check\<close>

text \<open>
  C2. The claim is that \<open>RecordAccess\<close> and \<open>Remove\<close> fail, before they change anything,
  for every frame id that is at least the capacity. The check of the source is
  \<^verbatim>\<open>frame_id > replacer_size_\<close>: an id above the capacity is refused with the state
  unchanged (\<open>frame_id_above_capacity\<close>), the id equal to the capacity is not. On a
  replacer of capacity 1, \<open>RecordAccess\<close> of frame 1 returns, with frame 1 recorded,
  evictable and counted in \<open>Size\<close>, and \<open>Remove\<close> of frame 1 returns as the no-op for a
  frame never accessed.
\<close>

theorem frame_id_equal_capacity:
  "RecordAccess (LRUKReplacer 1 2) 1 = Ok () (full_replacer 1) \<and>
   Size (full_replacer 1) = 1 \<and>
   Remove (LRUKReplacer 1 2) 1 = Ok () (LRUKReplacer 1 2)"
  by (simp add: replacer_defs full_replacer_def)

subsection \<open>C3: counts and the two lists\<close>

text \<open>
  C3. In every state of a run, so after every completed call whether it returned or threw,
  a frame with a count in \<open>[1, K)\<close> is in \<open>new_frames\<close> and not in \<open>k_frames\<close>, a frame
  with a count of at least \<open>K\<close> is in \<open>k_frames\<close> and not in \<open>new_frames\<close>, and a frame
  with count 0 is in neither.
\<close>

theorem index_membership:
  assumes "1 \<le> k" and "run (LRUKReplacer n k) cs = Some s"
  shows "(1 \<le> record_cnt s f \<and> record_cnt s f < k \<longrightarrow>
            f \<in> set (new_frames s) \<and> f \<notin> fst ` set (k_frames s)) \<and>
         (k \<le> record_cnt s f \<longrightarrow>
            f \<in> fst ` set (k_frames s) \<and> f \<notin> set (new_frames s)) \<and>
         (record_cnt s f = 0 \<longrightarrow>
            f \<notin> set (new_frames s) \<and> f \<notin> fst ` set (k_frames s))"
proof -
  note I = invarD [OF reachable_invar [OF assms]]
  have k: "replacer_k s = k" using reachable_params(1) [OF assms] .
  from I(5) [of f] I(6) [of f] assms(1) show ?thesis
    unfolding k by auto
qed

theorem index_membership_witness:
  "\<exists>s. run (LRUKReplacer 4 2) calls_cold = Some s \<and>
     record_cnt s 2 = 1 \<and> 2 \<in> set (new_frames s) \<and> 2 \<notin> fst ` set (k_frames s) \<and>
     record_cnt s 1 = 2 \<and> 1 \<in> fst ` set (k_frames s) \<and> 1 \<notin> set (new_frames s) \<and>
     record_cnt s 0 = 0 \<and> 0 \<notin> set (new_frames s) \<and> 0 \<notin> fst ` set (k_frames s)"
proof -
  have k: "(1::nat) \<le> 2" by simp
  obtain s where s: "run (LRUKReplacer 4 2) calls_cold = Some s"
    "record_cnt s 2 = 1" "record_cnt s 1 = 2" "record_cnt s 0 = 0"
    by (simp add: calls_cold_def replacer_defs)
  from index_membership [OF k s(1), of 2] index_membership [OF k s(1), of 1]
    index_membership [OF k s(1), of 0] s
  show ?thesis by (intro exI [of _ s]) simp
qed

subsection \<open>C4: what Size counts\<close>

text \<open>
  C4. In every state of a run, \<open>Size\<close> is the number of frames that have a positive count
  and the evictable flag set; the set of these frames is finite.
\<close>

theorem Size_counts_evictable:
  assumes "1 \<le> k" and "run (LRUKReplacer n k) cs = Some s"
  shows "finite {f. 0 < record_cnt s f \<and> evictable s f} \<and>
         Size s = card {f. 0 < record_cnt s f \<and> evictable s f}"
  using finite_evictables [OF reachable_invar [OF assms]]
    invarD(7) [OF reachable_invar [OF assms]]
  by (simp add: Size_def)

theorem Size_counts_evictable_witness:
  "\<exists>s. run (LRUKReplacer 4 2) calls_cold = Some s \<and> Size s = 2 \<and>
     card {f. 0 < record_cnt s f \<and> evictable s f} = 2"
proof -
  have k: "(1::nat) \<le> 2" by simp
  obtain s where s: "run (LRUKReplacer 4 2) calls_cold = Some s" "Size s = 2"
    by (simp add: calls_cold_def replacer_defs)
  from Size_counts_evictable [OF k s(1)] s
  show ?thesis by (intro exI [of _ s]) simp
qed

subsection \<open>C5: the order of k_frames\<close>

text \<open>
  C5. In every state of a run, \<open>k_frames\<close> is in ascending order of its keys, and the key of
  a frame is the oldest timestamp of its history, which holds the last \<open>K\<close> accesses. When
  \<open>RecordAccess\<close> brings a frame to \<open>K\<close> accesses or beyond, the other nodes keep their
  order and the node of the frame, with its new key, goes behind every node whose key is
  at most that key and in front of every node with a greater key: the insertion is stable.
\<close>

theorem warm_index_order:
  assumes "1 \<le> k" and "run (LRUKReplacer n k) cs = Some s"
  shows "sorted (map snd (k_frames s)) \<and>
     (\<forall>e\<in>set (k_frames s). length (hist s (fst e)) = k \<and> snd e = hd (hist s (fst e))) \<and>
     (\<forall>f s'. RecordAccess s f = Ok () s' \<longrightarrow>
        hist s' f = (if record_cnt s f < k then hist s f else tl (hist s f))
                      @ [current_timestamp s + 1]) \<and>
     (\<forall>f s'. RecordAccess s f = Ok () s' \<and> k \<le> record_cnt s' f \<longrightarrow>
        (\<exists>xs ys. filter (\<lambda>e. fst e \<noteq> f) (k_frames s) = xs @ ys \<and>
           k_frames s' = xs @ (f, hd (hist s' f)) # ys \<and>
           (\<forall>e\<in>set xs. snd e \<le> hd (hist s' f)) \<and>
           (\<forall>e\<in>set ys. hd (hist s' f) < snd e)))"
proof (intro conjI ballI allI impI)
  note inv = reachable_invar [OF assms]
  note I = invarD [OF inv]
  have k: "replacer_k s = k" using reachable_params(1) [OF assms] .
  show "sorted (map snd (k_frames s))" by (rule I(8))
  {
    fix e assume e: "e \<in> set (k_frames s)"
    then have "fst e \<in> fst ` set (k_frames s)" by simp
    with I(6) have "replacer_k s \<le> record_cnt s (fst e)" by simp
    with I(9) [of "fst e"] k show "length (hist s (fst e)) = k" by simp
    from I(10) [OF e] show "snd e = hd (hist s (fst e))" .
  }
  {
    fix f s'
    assume "RecordAccess s f = Ok () s'"
    from RecordAccess_hist(2) [OF inv this]
    show "hist s' f = (if record_cnt s f < k then hist s f else tl (hist s f))
                      @ [current_timestamp s + 1]"
      unfolding k .
  }
  {
    fix f s'
    assume a: "RecordAccess s f = Ok () s' \<and> k \<le> record_cnt s' f"
    let ?base = "filter (\<lambda>e. fst e \<noteq> f) (k_frames s)" and ?v = "(f, hd (hist s' f))"
    from a k have kf: "k_frames s' = insert_upper ?v ?base"
      by (intro warm_placement [OF inv]) simp_all
    have srt: "sorted (map snd ?base)" using I(8) by (rule sorted_filter)
    from insert_upper_split [of ?base ?v] srt obtain xs ys where
      "?base = xs @ ys" "insert_upper ?v ?base = xs @ ?v # ys"
      "\<forall>e\<in>set xs. snd e \<le> snd ?v" "\<forall>e\<in>set ys. snd ?v < snd e"
      by blast
    with kf show "\<exists>xs ys. ?base = xs @ ys \<and>
           k_frames s' = xs @ (f, hd (hist s' f)) # ys \<and>
           (\<forall>e\<in>set xs. snd e \<le> hd (hist s' f)) \<and>
           (\<forall>e\<in>set ys. hd (hist s' f) < snd e)"
      by (intro exI [of _ xs] exI [of _ ys]) simp
  }
qed

theorem warm_index_order_witness:
  "\<exists>s s'. run (LRUKReplacer 4 2) calls_order = Some s \<and>
     k_frames s = [(1, 1), (3, 4)] \<and> sorted (map snd (k_frames s)) \<and>
     hist s 1 = [1, 2] \<and> hist s 3 = [4, 5] \<and>
     RecordAccess s 2 = Ok () s' \<and> record_cnt s' 2 = 2 \<and> hist s' 2 = [3, 6] \<and>
     k_frames s' = [(1, 1), (2, 3), (3, 4)]"
proof -
  have k: "(1::nat) \<le> 2" by simp
  obtain s where s: "run (LRUKReplacer 4 2) calls_order = Some s"
    "k_frames s = [(1, 1), (3, 4)]" "hist s 1 = [1, 2]" "hist s 3 = [4, 5]"
    "hist s 2 = [3]" "record_cnt s 2 = 1" "current_timestamp s = 5"
    by (simp add: calls_order_def replacer_defs)
  obtain s' where s': "RecordAccess s 2 = Ok () s'" "record_cnt s' 2 = 2" "hist s' 2 = [3, 6]"
    using run_invar [OF invar_LRUKReplacer [OF k] s(1)] s(2-)
      RecordAccess_reach_k [of s 2] reachable_params [OF k s(1)]
    by (simp add: static_cast_frame_id_t_def)
  note w = warm_index_order [OF k s(1)]
  from w have 1: "sorted (map snd (k_frames s))" by blast
  from w [THEN conjunct2, THEN conjunct2, THEN conjunct2, rule_format, of 2 s'] s'
  obtain xs ys where
    xy: "filter (\<lambda>e. fst e \<noteq> 2) (k_frames s) = xs @ ys" "k_frames s' = xs @ (2, 3) # ys"
      "\<forall>e\<in>set xs. snd e \<le> 3" "\<forall>e\<in>set ys. 3 < snd e"
    by auto
  from xy(1) s(2) have "xs @ ys = [(1, 1), (3, 4)]" by simp
  then consider "xs = []" "ys = [(1, 1), (3, 4)]" | "xs = [(1, 1)]" "ys = [(3, 4)]"
    | "xs = [(1, 1), (3, 4)]" "ys = []"
    by (auto simp: append_eq_Cons_conv Cons_eq_append_conv)
  then have "xs = [(1, 1)] \<and> ys = [(3, 4)]"
    using xy(3,4) by cases auto
  with xy(2) have 2: "k_frames s' = [(1, 1), (2, 3), (3, 4)]" by simp
  from s s' 1 2 show ?thesis by (intro exI [of _ s] exI [of _ s']) simp
qed

subsection \<open>C6: Remove\<close>

text \<open>
  C6. In every state of a run of a replacer whose capacity is below \<open>2 ^ 31\<close>, so that the
  cast in the range check keeps it, and for every frame id in \<open>[0, capacity)\<close>: \<open>Remove\<close>
  returns and changes nothing when the count of the frame is 0; it throws
  \<open>IllegalRemoval\<close> and changes nothing when the count is positive and the frame is not
  evictable; otherwise it returns with the history of the frame empty, its count 0, its
  node gone from the list that held it, every other node where it was, and \<open>Size\<close>, which
  was at least 1, one less.
\<close>

theorem Remove_valid_frame:
  assumes "1 \<le> k" and "n < 2 ^ 31" and "run (LRUKReplacer n k) cs = Some s"
    and "0 \<le> f" and "f < int n"
  shows "(record_cnt s f = 0 \<longrightarrow> Remove s f = Ok () s) \<and>
         (0 < record_cnt s f \<and> \<not> evictable s f \<longrightarrow> Remove s f = Throw IllegalRemoval s) \<and>
         (0 < record_cnt s f \<and> evictable s f \<longrightarrow>
            1 \<le> Size s \<and>
            Remove s f = Ok ()
              (s\<lparr>hist := (hist s)(f := []), record_cnt := (record_cnt s)(f := 0),
                 new_frames := filter (\<lambda>g. g \<noteq> f) (new_frames s),
                 k_frames := filter (\<lambda>e. fst e \<noteq> f) (k_frames s),
                 curr_size := Size s - 1\<rparr>))"
proof (intro conjI impI)
  note inv = reachable_invar [OF assms(1,3)]
  note I = invarD [OF inv]
  from assms(5) reachable_params(2) [OF assms(1,3)] static_cast_frame_id_t_small [OF assms(2)]
  have le: "f \<le> static_cast_frame_id_t (replacer_size s)"
    by simp
  {
    assume "record_cnt s f = 0"
    from Remove_untracked [OF I(1) le this] show "Remove s f = Ok () s" .
  }
  {
    assume "0 < record_cnt s f \<and> \<not> evictable s f"
    then show "Remove s f = Throw IllegalRemoval s"
      using Remove_pinned [OF I(1) le] by blast
  }
  {
    assume a: "0 < record_cnt s f \<and> evictable s f"
    then have c: "0 < record_cnt s f" and e: "evictable s f" by blast+
    from curr_size_pos [OF inv c e] show "1 \<le> Size s" by (simp add: Size_def)
    show "Remove s f = Ok ()
              (s\<lparr>hist := (hist s)(f := []), record_cnt := (record_cnt s)(f := 0),
                 new_frames := filter (\<lambda>g. g \<noteq> f) (new_frames s),
                 k_frames := filter (\<lambda>e. fst e \<noteq> f) (k_frames s),
                 curr_size := Size s - 1\<rparr>)"
    proof (cases "record_cnt s f < replacer_k s")
      case True
      with I(6) [of f] have "f \<notin> fst ` set (k_frames s)" by simp
      then have "filter (\<lambda>e. fst e \<noteq> f) (k_frames s) = k_frames s" by (rule filter_fst_id)
      with Remove_cold [OF inv le c e True] remove1_filter [OF I(3), of f]
      show ?thesis by (simp add: Size_def)
    next
      case False
      then have ge: "replacer_k s \<le> record_cnt s f" by simp
      with I(5) [of f] have "f \<notin> set (new_frames s)" by simp
      then have "filter (\<lambda>g. g \<noteq> f) (new_frames s) = new_frames s" by (rule filter_id)
      with Remove_warm [OF inv le c e ge] unlink_filter [OF I(4), of f]
      show ?thesis by (simp add: Size_def)
    qed
  }
qed

theorem Remove_valid_frame_witness:
  "\<exists>s s'. run (LRUKReplacer 4 2) calls_cold = Some s \<and>
     record_cnt s 0 = 0 \<and> Remove s 0 = Ok () s \<and>
     record_cnt s 2 = 1 \<and> \<not> evictable s 2 \<and> Remove s 2 = Throw IllegalRemoval s \<and>
     record_cnt s 1 = 2 \<and> evictable s 1 \<and> Size s = 2 \<and> Remove s 1 = Ok () s' \<and>
     hist s' 1 = [] \<and> record_cnt s' 1 = 0 \<and> new_frames s' = [3, 2] \<and> k_frames s' = [] \<and>
     Size s' = 1"
proof -
  have k: "(1::nat) \<le> 2" and n: "(4::nat) < 2 ^ 31" by simp_all
  obtain s where s: "run (LRUKReplacer 4 2) calls_cold = Some s"
    "record_cnt s 0 = 0" "record_cnt s 2 = 1" "\<not> evictable s 2"
    "record_cnt s 1 = 2" "evictable s 1" "Size s = 2"
    "new_frames s = [3, 2]" "k_frames s = [(1, 1)]"
    by (simp add: calls_cold_def replacer_defs)
  from Remove_valid_frame [OF k n s(1), of 0] s have 0: "Remove s 0 = Ok () s" by simp
  from Remove_valid_frame [OF k n s(1), of 2] s have 2: "Remove s 2 = Throw IllegalRemoval s"
    by simp
  from Remove_valid_frame [OF k n s(1), of 1] s
  have 1: "Remove s 1 = Ok ()
      (s\<lparr>hist := (hist s)(1 := []), record_cnt := (record_cnt s)(1 := 0),
         new_frames := [3, 2], k_frames := [], curr_size := 1\<rparr>)"
    by simp
  from 0 1 2 s show ?thesis
    by (intro exI [of _ s] exI [of _ "s\<lparr>hist := (hist s)(1 := []),
       record_cnt := (record_cnt s)(1 := 0),
       new_frames := [3, 2], k_frames := [], curr_size := 1\<rparr>"]) (simp add: Size_def)
qed

subsection \<open>C7: the first access at capacity\<close>

text \<open>
  C7. The claim is that the first access of a frame, when \<open>Size\<close> equals the capacity,
  evicts a victim and then admits the frame. The source calls \<^verbatim>\<open>Evict\<close> for that in line
  62, inside \<^verbatim>\<open>RecordAccess\<close>, which holds \<^verbatim>\<open>latch_\<close> since line 52, and \<^verbatim>\<open>Evict\<close> locks
  \<^verbatim>\<open>latch_\<close> again in line 21: the call never gets to evict or to admit. On a replacer of
  capacity 1 that has recorded frame 1, or frame -1, the first access of frame 0 is such a
  call.
\<close>

theorem first_access_at_capacity:
  "run (LRUKReplacer 1 2) [CallRecordAccess 1] = Some (full_replacer 1) \<and>
   record_cnt (full_replacer 1) 0 = 0 \<and>
   Size (full_replacer 1) = replacer_size (full_replacer 1) \<and>
   RecordAccess (full_replacer 1) 0 = Undefined Relock \<and>
   run (LRUKReplacer 1 2) [CallRecordAccess 1, CallRecordAccess 0] = None"
  by (simp add: replacer_defs full_replacer_def)

text \<open>The same after the access of a negative frame id, which the range check lets pass.\<close>

lemma first_access_at_capacity_negative:
  "run (LRUKReplacer 1 2) [CallRecordAccess (- 1)] = Some (full_replacer (- 1)) \<and>
   record_cnt (full_replacer (- 1)) 0 = 0 \<and>
   Size (full_replacer (- 1)) = replacer_size (full_replacer (- 1)) \<and>
   RecordAccess (full_replacer (- 1)) 0 = Undefined Relock"
  by (simp add: replacer_defs full_replacer_def)

subsection \<open>C8: scenario B\<close>

text \<open>
  C8, as stated, has \<open>RecordAccess\<close> of frame 5 succeed on a replacer of capacity 1 with
  \<open>K = 1\<close>. It does not return: 5 is above the capacity, and the call throws.
\<close>

theorem scenario_B_counterexample:
  "\<not> returns (RecordAccess (LRUKReplacer 1 1) 5)"
  by (simp add: replacer_defs)

text \<open>
  C8, amended. On a replacer of capacity 1 with \<open>K = 1\<close>, \<open>RecordAccess\<close> of frame 5 throws
  \<open>InvalidFrame\<close> and leaves the state as constructed; \<open>SetEvictable\<close> of frame 5 to false
  is then a no-op, and \<open>Evict\<close> reports no victim.
\<close>

theorem scenario_B_amended:
  "RecordAccess (LRUKReplacer 1 1) 5 = Throw InvalidFrame (LRUKReplacer 1 1) \<and>
   SetEvictable (LRUKReplacer 1 1) 5 False = Ok () (LRUKReplacer 1 1) \<and>
   Evict (LRUKReplacer 1 1) = Ok None (LRUKReplacer 1 1)"
  by (simp add: replacer_defs)

text \<open>With frame 0, which is in range, the scenario runs as the specification tells it.\<close>

lemma scenario_B_in_range:
  "\<exists>s1 s2. RecordAccess (LRUKReplacer 1 1) 0 = Ok () s1 \<and> Size s1 = 1 \<and>
     SetEvictable s1 0 False = Ok () s2 \<and> Size s2 = 0 \<and> Evict s2 = Ok None s2"
  by (simp add: replacer_defs)

subsection \<open>C9: SetEvictable\<close>

text \<open>
  C9. In every state of a run, for every frame id and flag: \<open>SetEvictable\<close> returns and
  changes nothing when the count of the frame is 0 or its flag already has the value;
  otherwise it sets the flag of that frame, adds 1 to \<open>Size\<close> when the flag becomes true
  and takes 1 from \<open>Size\<close>, which was at least 1, when it becomes false, and moves
  \<open>max_size\<close>, which nothing reads, along; histories, counts and both lists are as before.
  A second call with the same flag changes nothing, so \<open>Size\<close> moves at most once.
\<close>

theorem SetEvictable_effect:
  assumes "1 \<le> k" and "run (LRUKReplacer n k) cs = Some s"
  shows "(record_cnt s f = 0 \<longrightarrow> SetEvictable s f v = Ok () s) \<and>
         (0 < record_cnt s f \<and> evictable s f = v \<longrightarrow> SetEvictable s f v = Ok () s) \<and>
         (0 < record_cnt s f \<and> \<not> evictable s f \<and> v \<longrightarrow>
            SetEvictable s f v = Ok ()
              (s\<lparr>evictable := (evictable s)(f := True), max_size := max_size s + 1,
                 curr_size := Size s + 1\<rparr>)) \<and>
         (0 < record_cnt s f \<and> evictable s f \<and> \<not> v \<longrightarrow>
            1 \<le> Size s \<and>
            SetEvictable s f v = Ok ()
              (s\<lparr>evictable := (evictable s)(f := False), max_size := max_size s - 1,
                 curr_size := Size s - 1\<rparr>)) \<and>
         (\<forall>s'. SetEvictable s f v = Ok () s' \<longrightarrow> SetEvictable s' f v = Ok () s')"
proof (intro conjI impI allI)
  note inv = reachable_invar [OF assms(1,2)]
  note I = invarD [OF inv]
  note eq = SetEvictable_eq [OF I(1), of f v]
  {
    assume "record_cnt s f = 0"
    with eq show "SetEvictable s f v = Ok () s" by simp
  }
  {
    assume "0 < record_cnt s f \<and> evictable s f = v"
    with eq show "SetEvictable s f v = Ok () s" by auto
  }
  {
    assume "0 < record_cnt s f \<and> \<not> evictable s f \<and> v"
    with eq show "SetEvictable s f v = Ok ()
              (s\<lparr>evictable := (evictable s)(f := True), max_size := max_size s + 1,
                 curr_size := Size s + 1\<rparr>)"
      by (simp add: Size_def)
  }
  {
    assume a: "0 < record_cnt s f \<and> evictable s f \<and> \<not> v"
    with curr_size_pos [OF inv] have pos: "0 < curr_size s" by blast
    then show "1 \<le> Size s" by (simp add: Size_def)
    from a eq pos show "SetEvictable s f v = Ok ()
              (s\<lparr>evictable := (evictable s)(f := False), max_size := max_size s - 1,
                 curr_size := Size s - 1\<rparr>)"
      by (simp add: Size_def dec_size_t_def)
  }
  {
    fix s'
    assume a: "SetEvictable s f v = Ok () s'"
    with eq have l: "\<not> latch s'" using I(1) by (auto split: if_splits)
    from a eq have "record_cnt s' f = 0 \<or> evictable s' f = v"
      by (auto split: if_splits)
    with SetEvictable_eq [OF l, of f v] show "SetEvictable s' f v = Ok () s'"
      by auto
  }
qed

theorem SetEvictable_effect_witness:
  "\<exists>s s1 s2. run (LRUKReplacer 4 2) calls_cold = Some s \<and> Size s = 2 \<and>
     record_cnt s 0 = 0 \<and> SetEvictable s 0 True = Ok () s \<and>
     record_cnt s 1 = 2 \<and> evictable s 1 \<and> SetEvictable s 1 True = Ok () s \<and>
     SetEvictable s 1 False = Ok () s1 \<and> Size s1 = 1 \<and> SetEvictable s1 1 False = Ok () s1 \<and>
     record_cnt s 2 = 1 \<and> \<not> evictable s 2 \<and>
     SetEvictable s 2 True = Ok () s2 \<and> Size s2 = 3 \<and> SetEvictable s2 2 True = Ok () s2 \<and>
     hist s1 = hist s \<and> record_cnt s1 = record_cnt s \<and> new_frames s1 = new_frames s \<and>
     k_frames s1 = k_frames s"
proof -
  have k: "(1::nat) \<le> 2" by simp
  obtain s where s: "run (LRUKReplacer 4 2) calls_cold = Some s" "Size s = 2"
    "record_cnt s 0 = 0" "record_cnt s 1 = 2" "evictable s 1"
    "record_cnt s 2 = 1" "\<not> evictable s 2"
    by (simp add: calls_cold_def replacer_defs)
  let ?s1 = "s\<lparr>evictable := (evictable s)(1 := False), max_size := max_size s - 1,
                 curr_size := Size s - 1\<rparr>"
  let ?s2 = "s\<lparr>evictable := (evictable s)(2 := True), max_size := max_size s + 1,
                 curr_size := Size s + 1\<rparr>"
  from SetEvictable_effect [OF k s(1), of 0 True] s
  have a: "SetEvictable s 0 True = Ok () s" by simp
  from SetEvictable_effect [OF k s(1), of 1 True] s
  have b: "SetEvictable s 1 True = Ok () s" by simp
  from SetEvictable_effect [OF k s(1), of 1 False] s
  have c: "SetEvictable s 1 False = Ok () ?s1" "SetEvictable ?s1 1 False = Ok () ?s1"
    by simp_all
  from SetEvictable_effect [OF k s(1), of 2 True] s
  have d: "SetEvictable s 2 True = Ok () ?s2" "SetEvictable ?s2 2 True = Ok () ?s2"
    by simp_all
  from a b c d s show ?thesis
    by (intro exI [of _ s] exI [of _ ?s1] exI [of _ ?s2]) (simp add: Size_def)
qed

subsection \<open>C10: Evict finds a victim when Size is positive\<close>

text \<open>
  C10. In every state of a run with \<open>Size\<close> positive, the search of \<open>Evict\<close> finds a victim:
  \<open>Evict\<close> returns a frame that is evictable, has a positive count and is in one of the
  two lists, and leaves it with an empty history, count 0 and no node, every other node
  where it was and \<open>Size\<close> one less. \<open>Evict\<close> reports no victim only when \<open>Size\<close> is 0, and
  then changes nothing: the last \<^verbatim>\<open>return false\<close> of the source is never reached.
\<close>

theorem Evict_finds_victim:
  assumes "1 \<le> k" and "run (LRUKReplacer n k) cs = Some s"
  shows "(0 < Size s \<longrightarrow>
            (\<exists>f. evictable s f \<and> 0 < record_cnt s f \<and>
               f \<in> set (new_frames s) \<union> fst ` set (k_frames s) \<and>
               Evict s = Ok (Some f)
                 (s\<lparr>hist := (hist s)(f := []), record_cnt := (record_cnt s)(f := 0),
                    new_frames := filter (\<lambda>g. g \<noteq> f) (new_frames s),
                    k_frames := filter (\<lambda>e. fst e \<noteq> f) (k_frames s),
                    curr_size := Size s - 1\<rparr>))) \<and>
         (Size s = 0 \<longrightarrow> Evict s = Ok None s) \<and>
         (\<forall>s'. Evict s = Ok None s' \<longrightarrow> Size s = 0)"
proof -
  note inv = reachable_invar [OF assms]
  note I = invarD [OF inv]
  let ?post = "\<lambda>f. s\<lparr>hist := (hist s)(f := []), record_cnt := (record_cnt s)(f := 0),
                    new_frames := filter (\<lambda>g. g \<noteq> f) (new_frames s),
                    k_frames := filter (\<lambda>e. fst e \<noteq> f) (k_frames s),
                    curr_size := Size s - 1\<rparr>"
  have found: "\<exists>f. evictable s f \<and> 0 < record_cnt s f \<and>
               f \<in> set (new_frames s) \<union> fst ` set (k_frames s) \<and>
               Evict s = Ok (Some f) (?post f)" if "0 < Size s"
  proof (cases "find (evictable s) (rev (new_frames s))")
    case (Some f)
    from find_rev_in [OF Some] have f: "f \<in> set (new_frames s)" "evictable s f" by auto
    with I(5) [of f] have c: "0 < record_cnt s f" "record_cnt s f < replacer_k s" by auto
    with I(6) [of f] have "f \<notin> fst ` set (k_frames s)" by simp
    then have "filter (\<lambda>e. fst e \<noteq> f) (k_frames s) = k_frames s" by (rule filter_fst_id)
    with Evict_cold [OF inv Some] remove1_filter [OF I(3), of f]
    have "Evict s = Ok (Some f) (?post f)" by (simp add: Size_def)
    with f c(1) show ?thesis by blast
  next
    case None
    show ?thesis
    proof (cases "scan_k (evictable s) (k_frames s)")
      case (Some p)
      obtain f l where p: "p = (f, l)" by (cases p)
      note u = scan_k_unlink [OF I(4) Some [unfolded p]]
      from u(2) I(6) [of f] I(2) have c: "0 < record_cnt s f" "replacer_k s \<le> record_cnt s f"
        by auto
      with I(5) [of f] have "f \<notin> set (new_frames s)" by simp
      then have "filter (\<lambda>g. g \<noteq> f) (new_frames s) = new_frames s" by (rule filter_id)
      with Evict_warm [OF inv None Some [unfolded p]] unlink_filter [OF I(4), of f]
      have "Evict s = Ok (Some f) (?post f)" by (simp add: Size_def)
      with u(2,3) c(1) show ?thesis by blast
    next
      case none_k: None
      from None have 1: "\<forall>x\<in>set (new_frames s). \<not> evictable s x"
        by (simp add: find_None_iff)
      from none_k have 2: "\<forall>e\<in>set (k_frames s). \<not> evictable s (fst e)"
        by (simp add: scan_k_None)
      have "\<not> evictable s g" if "0 < record_cnt s g" for g
      proof -
        from that have "g \<in> set (new_frames s) \<union> fst ` set (k_frames s)"
          using tracked_eq [OF inv] by blast
        with 1 2 show ?thesis by auto
      qed
      with curr_size_zero [OF inv] have "curr_size s = 0" by blast
      with that show ?thesis by (simp add: Size_def)
    qed
  qed
  have zero: "Evict s = Ok None s" if "Size s = 0"
    using that I(1) by (simp add: Evict_def lock_guard_def Evict_body_def Size_def)
  have none: "Size s = 0" if "Evict s = Ok None s'" for s'
  proof (rule ccontr)
    assume "Size s \<noteq> 0"
    then have "0 < Size s" by simp
    from found [OF this] that show False by auto
  qed
  from found zero none show ?thesis by blast
qed

theorem Evict_finds_victim_witness:
  "(\<exists>s s'. run (LRUKReplacer 4 2) calls_cold = Some s \<and> Size s = 2 \<and>
       new_frames s = [3, 2] \<and> k_frames s = [(1, 1)] \<and>
       evictable s 3 \<and> \<not> evictable s 2 \<and> evictable s 1 \<and>
       Evict s = Ok (Some 3) s' \<and> record_cnt s 3 = 1 \<and> record_cnt s' 3 = 0 \<and>
       hist s' 3 = [] \<and> new_frames s' = [2] \<and> k_frames s' = [(1, 1)] \<and> Size s' = 1) \<and>
   (\<exists>s. run (LRUKReplacer 4 2) calls_pinned = Some s \<and> Size s = 0 \<and> Evict s = Ok None s)"
proof -
  have k: "(1::nat) \<le> 2" by simp
  obtain s where s: "run (LRUKReplacer 4 2) calls_cold = Some s" "Size s = 2"
    "new_frames s = [3, 2]" "k_frames s = [(1, 1)]"
    "evictable s 3" "\<not> evictable s 2" "evictable s 1" "record_cnt s 3 = 1"
    "Evict s = Ok (Some 3)
       (s\<lparr>hist := (hist s)(3 := []), record_cnt := (record_cnt s)(3 := 0),
          new_frames := [2], curr_size := 1\<rparr>)"
    by (simp add: calls_cold_def replacer_defs)
  obtain t where t: "run (LRUKReplacer 4 2) calls_pinned = Some t" "Size t = 0"
    by (simp add: calls_pinned_def replacer_defs)
  from Evict_finds_victim [OF k s(1)] s(2) obtain f where
    f: "evictable s f" "0 < record_cnt s f"
      "Evict s = Ok (Some f)
         (s\<lparr>hist := (hist s)(f := []), record_cnt := (record_cnt s)(f := 0),
            new_frames := filter (\<lambda>g. g \<noteq> f) (new_frames s),
            k_frames := filter (\<lambda>e. fst e \<noteq> f) (k_frames s),
            curr_size := Size s - 1\<rparr>)"
    by auto
  from f(3) s(9) have f3: "f = 3" by simp
  let ?s' = "s\<lparr>hist := (hist s)(3 := []), record_cnt := (record_cnt s)(3 := 0),
            new_frames := filter (\<lambda>g. g \<noteq> 3) (new_frames s),
            k_frames := filter (\<lambda>e. fst e \<noteq> 3) (k_frames s),
            curr_size := Size s - 1\<rparr>"
  from f(3) f3 have e: "Evict s = Ok (Some 3) ?s'" by simp
  from Evict_finds_victim [OF k t(1)] t(2) have "Evict t = Ok None t"
    by simp
  with s(1-8) e t show ?thesis
    by (intro conjI exI [of _ s] exI [of _ ?s'] exI [of _ t]) (simp_all add: Size_def)
qed

end
